theory Spec2Isabelle
  imports Complex_Main
begin

section \<open>Numbers, vectors and exceptions\<close>

text \<open>
  A JavaScript number is modelled as a real: every formula of the pointer tracker is
  read as exact arithmetic. The model leaves rounding, infinities and NaN out; with a
  viewport of positive size no division by zero occurs. An object \<open>{ x, y }\<close> is a pair.
\<close>

type_synonym vec2 = "real \<times> real"

datatype js_error = TypeError string | SyntaxError string | Error string

section \<open>Pointer tracker of RuntimeProvider\<close>

text \<open>
  \<^verbatim>\<open>type PointerSpaces = { px; screen; ndc; gl; v }\<close> and the initial value given to
  \<^verbatim>\<open>useRef<PointerSpaces>(...)\<close>.
\<close>

record PointerSpaces =
  px :: vec2
  screen :: vec2
  ndc :: vec2
  gl :: vec2
  v :: vec2

definition pointer_init :: PointerSpaces where
  "pointer_init =
     \<lparr> px = (0, 0), screen = (0, 0), ndc = (-1, -1), gl = (0, 0), v = (0, 0) \<rparr>"

text \<open>
  The event handed to a move handler. A mouse event carries \<open>clientX\<close>, \<open>clientY\<close>; a touch
  event carries the lists \<open>touches\<close> and \<open>changedTouches\<close> of contact points.
\<close>

datatype event =
    MouseEvent real real
  | TouchEvent "vec2 list" "vec2 list"

text \<open>
  \<^verbatim>\<open>const c = "touches" in e ? e.touches[0] : (e as MouseEvent); x = c.clientX, y = c.clientY\<close>.
  Reading \<open>clientX\<close> of \<open>touches[0]\<close> of an empty list throws a TypeError.
\<close>

fun touches0 :: "event \<Rightarrow> js_error + vec2" where
  "touches0 (MouseEvent cx cy) = Inr (cx, cy)"
| "touches0 (TouchEvent [] cs) = Inl (TypeError ''touches[0] is undefined'')"
| "touches0 (TouchEvent (c # ts) cs) = Inr c"

text \<open>
  The state of the effect closure: the shared \<open>pointer.current\<close> and the local
  \<open>last = { x, y, t }\<close>.
\<close>

record tracker =
  pointer :: PointerSpaces
  last_sample :: "real \<times> real \<times> real"

text \<open>
  \<^verbatim>\<open>let last = { x: 0, y: 0, t: performance.now() }\<close> at the time \<open>t0\<close> the effect runs.
\<close>

definition tracker_init :: "real \<Rightarrow> tracker" where
  "tracker_init t0 = \<lparr> pointer = pointer_init, last_sample = (0, 0, t0) \<rparr>"

text \<open>
  \<open>onMove\<close>, with the viewport \<open>(window.innerWidth, window.innerHeight)\<close> and the clock
  reading \<open>performance.now()\<close> as arguments. The five assignments follow the source
  line by line.
\<close>

definition onMove :: "event \<Rightarrow> real \<Rightarrow> real \<Rightarrow> real \<Rightarrow> tracker \<Rightarrow> js_error + tracker" where
  "onMove e vw vh now s =
     (case touches0 e of
        Inl err \<Rightarrow> Inl err
      | Inr (cx, cy) \<Rightarrow>
          (case last_sample s of (lx, ly, lt) \<Rightarrow>
             let dt = max 1 (now - lt);
                 p1 = (pointer s)\<lparr> px := (cx, cy) \<rparr>;
                 p2 = p1\<lparr> screen := (cx / vw, cy / vh) \<rparr>;
                 p3 = p2\<lparr> ndc := ((cx / vw) * 2 - 1, - ((cy / vh) * 2 - 1)) \<rparr>;
                 p4 = p3\<lparr> gl := (cx - vw / 2, - (cy - vh / 2)) \<rparr>;
                 p5 = p4\<lparr> v := ((cx - lx) / dt, (cy - ly) / dt) \<rparr>
             in Inr \<lparr> pointer = p5, last_sample = (cx, cy, now) \<rparr>))"

section \<open>Pointer tracking of InputManager\<close>

text \<open>
  \<open>G.mouse\<close>: the raw position and the three vectors written by the input manager. A
  vector starts as an object with only a \<open>set\<close> method, so its coordinates are undefined
  (\<open>None\<close>) until \<open>set\<close> is called. \<open>G.mouse.smooth.glNormalized\<close> is declared in \<open>G\<close> and
  never written by the input manager.
\<close>

record G_mouse =
  mouse_x :: real
  mouse_y :: real
  mouse_gl :: "vec2 option"
  mouse_glNormalized :: "vec2 option"
  mouse_glScreenSpace :: "vec2 option"
  mouse_smooth_glNormalized :: "vec2 option"

definition G_mouse_init :: G_mouse where
  "G_mouse_init =
     \<lparr> mouse_x = 0, mouse_y = 0, mouse_gl = None, mouse_glNormalized = None,
       mouse_glScreenSpace = None, mouse_smooth_glNormalized = None \<rparr>"

text \<open>What the input manager hands to \<open>Emitter.emit\<close>, in the order of the calls.\<close>

datatype emitted =
    GMouseMove vec2
  | GMouseDrag real real real real real real
  | GMouseDown vec2
  | GMouseUp
  | GResize

text \<open>
  The input manager with the part of \<open>G\<close> it reads and writes: \<open>G.window.w\<close>, \<open>G.window.h\<close>
  and \<open>G.mouse\<close>. The handlers subscribed to the emitted events are outside this model;
  the events are appended to \<open>emits\<close>.
\<close>

record InputManager =
  dragging :: bool
  mousePos :: vec2
  prevMousePos :: vec2
  origMousePos :: vec2
  window_w :: real
  window_h :: real
  mouse :: G_mouse
  emits :: "emitted list"

text \<open>
  \<^verbatim>\<open>e.changedTouches ? e.changedTouches[0].clientX : e.clientX\<close>.
\<close>

fun changedTouches0 :: "event \<Rightarrow> js_error + vec2" where
  "changedTouches0 (MouseEvent cx cy) = Inr (cx, cy)"
| "changedTouches0 (TouchEvent ts []) = Inl (TypeError ''changedTouches[0] is undefined'')"
| "changedTouches0 (TouchEvent ts (c # cs)) = Inr c"

definition onPointerMove :: "event \<Rightarrow> InputManager \<Rightarrow> js_error + InputManager" where
  "onPointerMove e s =
     (case changedTouches0 e of
        Inl err \<Rightarrow> Inl err
      | Inr (cx, cy) \<Rightarrow>
          let s1 = s\<lparr> mousePos := (cx, cy) \<rparr>;
              m1 = (mouse s1)\<lparr> mouse_x := cx, mouse_y := cy \<rparr>;
              m2 = m1\<lparr> mouse_gl := Some (cx - window_w s1 / 2, - (cy - window_h s1 / 2)) \<rparr>;
              m3 = m2\<lparr> mouse_glNormalized :=
                         Some ((cx / window_w s1) * 2 - 1, - (cy / window_h s1) * 2 + 1) \<rparr>;
              m4 = m3\<lparr> mouse_glScreenSpace := Some (cx / window_w s1, 1 - cy / window_h s1) \<rparr>;
              s2 = s1\<lparr> mouse := m4, emits := emits s1 @ [GMouseMove (mousePos s1)] \<rparr>
          in if dragging s2
             then Inr (s2\<lparr> emits := emits s2 @
                             [GMouseDrag (fst (origMousePos s2)) (fst (prevMousePos s2)) (fst (mousePos s2))
                                         (snd (origMousePos s2)) (snd (prevMousePos s2)) (snd (mousePos s2))],
                           prevMousePos := mousePos s2 \<rparr>)
             else Inr s2)"

text \<open>
  \<open>_onResize\<close>, with \<open>window.innerWidth\<close> and \<open>window.innerHeight\<close> as arguments: it stores
  the viewport in \<open>G.window\<close> and emits the resize event.
\<close>

definition onResize :: "real \<Rightarrow> real \<Rightarrow> InputManager \<Rightarrow> InputManager" where
  "onResize vw vh s = s\<lparr> window_w := vw, window_h := vh, emits := emits s @ [GResize] \<rparr>"

text \<open>The constructor: the fields, then the first \<open>_onResize\<close>.\<close>

definition InputManager_new :: "real \<Rightarrow> real \<Rightarrow> InputManager" where
  "InputManager_new vw vh =
     onResize vw vh
       \<lparr> dragging = False, mousePos = (0, 0), prevMousePos = (0, 0), origMousePos = (0, 0),
         window_w = vw, window_h = vh, mouse = G_mouse_init, emits = [] \<rparr>"

section \<open>Callbacks\<close>

text \<open>
  A function value handed to the event bus or to a frame dispatcher is identified by a
  number (two references are \<open>===\<close> exactly when the numbers are equal). What a call of
  it does is given by a behaviour: a function from the argument and the state to the
  state it leaves, either returning (\<open>Inr\<close>) or throwing (\<open>Inl\<close>, with the thrown
  value). A behaviour may change the state before it throws.
\<close>

type_synonym cb = nat

type_synonym 's completion = "(js_error \<times> 's) + 's"

text \<open>The state a call leaves, whether it returned or threw.\<close>

fun state_after :: "'s completion \<Rightarrow> 's" where
  "state_after (Inl (err, s)) = s"
| "state_after (Inr s) = s"

section \<open>Emitter\<close>

text \<open>
  \<open>handlers\<close> is a \<open>Map\<close> from event names to \<open>Set\<close>s of callbacks. A \<open>Set\<close> keeps its
  entries in insertion order; \<open>delete\<close> empties the entry's slot (\<open>None\<close>) without moving
  the others, and \<open>add\<close> of a value that is not in the set appends a slot. This is the
  list a running \<open>for ... of\<close> walks by position, so it is the state of the model. \<open>bus_user\<close>
  stands for everything else a handler may read or write.
\<close>

record 'u bus =
  handlers :: "string \<rightharpoonup> cb option list"
  bus_user :: 'u

definition bus_init :: "'u \<Rightarrow> 'u bus" where
  "bus_init u = \<lparr> handlers = Map.empty, bus_user = u \<rparr>"

text \<open>\<open>Set.prototype.has\<close>, \<open>add\<close> and \<open>delete\<close> on the slot list.\<close>

definition set_add :: "cb \<Rightarrow> cb option list \<Rightarrow> cb option list" where
  "set_add c es = (if Some c \<in> set es then es else es @ [Some c])"

definition set_delete :: "cb \<Rightarrow> cb option list \<Rightarrow> cb option list" where
  "set_delete c es = map (\<lambda>e. if e = Some c then None else e) es"

text \<open>The members of a \<open>Set\<close>, in insertion order.\<close>

fun members :: "cb option list \<Rightarrow> cb list" where
  "members [] = []"
| "members (None # es) = members es"
| "members (Some c # es) = c # members es"

text \<open>
  \<^verbatim>\<open>on(evt, cb) { if (!handlers.has(evt)) handlers.set(evt, new Set()); handlers.get(evt).add(cb); }\<close>
\<close>

definition on :: "string \<Rightarrow> cb \<Rightarrow> 'u bus \<Rightarrow> 'u bus" where
  "on evt c s =
     (let s1 = (if handlers s evt = None then s\<lparr> handlers := (handlers s)(evt \<mapsto> []) \<rparr> else s)
      in case handlers s1 evt of
           None \<Rightarrow> s1
         | Some es \<Rightarrow> s1\<lparr> handlers := (handlers s1)(evt \<mapsto> set_add c es) \<rparr>)"

text \<open>
  \<^verbatim>\<open>off(evt, cb) { if (handlers.has(evt)) handlers.get(evt).delete(cb); }\<close>
\<close>

definition off :: "string \<Rightarrow> cb \<Rightarrow> 'u bus \<Rightarrow> 'u bus" where
  "off evt c s =
     (case handlers s evt of
        None \<Rightarrow> s
      | Some es \<Rightarrow> s\<lparr> handlers := (handlers s)(evt \<mapsto> set_delete c es) \<rparr>)"

text \<open>
  \<^verbatim>\<open>for (const cb of handlers.get(evt)) cb(payload);\<close> from slot \<open>i\<close> on. The iterator reads
  the set anew at every step, so slots emptied or appended by a handler during the walk
  are seen. There is no \<open>try\<close>: a throw ends the walk and leaves \<open>emit\<close>. The walk need not
  end (each handler may register another one), so the result is optional: \<open>None\<close> is a
  walk that never returns. The first component of the result lists the handlers called,
  in the order of the calls.
\<close>

partial_function (option) emit_from ::
  "(cb \<Rightarrow> 'p \<Rightarrow> 'u bus \<Rightarrow> 'u bus completion) \<Rightarrow> string \<Rightarrow> 'p \<Rightarrow> nat \<Rightarrow> cb list \<Rightarrow> 'u bus
     \<Rightarrow> (cb list \<times> 'u bus completion) option" where
  "emit_from beh evt payload i called s =
     (case handlers s evt of
        None \<Rightarrow> Some (called, Inr s)
      | Some es \<Rightarrow>
          if i < length es then
            (case es ! i of
               None \<Rightarrow> emit_from beh evt payload (i + 1) called s
             | Some c \<Rightarrow>
                 (case beh c payload s of
                    Inl err \<Rightarrow> Some (called @ [c], Inl err)
                  | Inr s' \<Rightarrow> emit_from beh evt payload (i + 1) (called @ [c]) s'))
          else Some (called, Inr s))"

text \<open>
  \<^verbatim>\<open>emit(evt, payload) { if (!handlers.has(evt)) return; for (...) cb(payload); }\<close>
\<close>

definition emit ::
  "(cb \<Rightarrow> 'p \<Rightarrow> 'u bus \<Rightarrow> 'u bus completion) \<Rightarrow> string \<Rightarrow> 'p \<Rightarrow> 'u bus
     \<Rightarrow> (cb list \<times> 'u bus completion) option" where
  "emit beh evt payload s =
     (if handlers s evt = None then Some ([], Inr s) else emit_from beh evt payload 0 [] s)"

text \<open>The handlers registered for a topic, in registration order.\<close>

definition registered :: "'u bus \<Rightarrow> string \<Rightarrow> cb list" where
  "registered s evt = (case handlers s evt of None \<Rightarrow> [] | Some es \<Rightarrow> members es)"

text \<open>
  A delivery that nothing disturbs: each of the handlers \<open>cs\<close>, called in turn in the
  state the handlers before it left, returns normally and leaves the topic holding the
  slot list \<open>es\<close>.
\<close>

fun undisturbed ::
  "(cb \<Rightarrow> 'p \<Rightarrow> 'u bus \<Rightarrow> 'u bus completion) \<Rightarrow> string \<Rightarrow> 'p \<Rightarrow> cb option list \<Rightarrow> cb list
     \<Rightarrow> 'u bus \<Rightarrow> bool" where
  "undisturbed beh evt payload es [] s = True"
| "undisturbed beh evt payload es (c # cs) s =
     (case beh c payload s of
        Inl err \<Rightarrow> False
      | Inr s' \<Rightarrow> handlers s' evt = Some es \<and> undisturbed beh evt payload es cs s')"

text \<open>
  Behaviours used in examples: one that returns at once; one whose handler 1 throws; one
  whose handlers throw when the flag kept in \<open>bus_user\<close> is set; one whose handler 1
  unsubscribes handler 2 from topic \<open>t\<close>; one whose handler 1 subscribes handler 4 to
  topic \<open>t\<close>.
\<close>

definition throws_when_flagged :: "cb \<Rightarrow> 'p \<Rightarrow> bool bus \<Rightarrow> bool bus completion" where
  "throws_when_flagged c payload s = (if bus_user s then Inl (Error ''boom'', s) else Inr s)"

definition first_removes_second :: "cb \<Rightarrow> 'p \<Rightarrow> 'u bus \<Rightarrow> 'u bus completion" where
  "first_removes_second c payload s = (if c = 1 then Inr (off ''t'' 2 s) else Inr s)"

definition first_adds_fourth :: "cb \<Rightarrow> 'p \<Rightarrow> 'u bus \<Rightarrow> 'u bus completion" where
  "first_adds_fourth c payload s = (if c = 1 then Inr (on ''t'' 4 s) else Inr s)"

definition idle :: "cb \<Rightarrow> 'p \<Rightarrow> 's \<Rightarrow> 's completion" where
  "idle c payload s = Inr s"

definition first_throws :: "cb \<Rightarrow> 'p \<Rightarrow> 's \<Rightarrow> 's completion" where
  "first_throws c payload s = (if c = 1 then Inl (Error ''boom'', s) else Inr s)"

section \<open>ComponentManager\<close>

text \<open>
  A component class as the manager uses it: its \<open>name\<close>, its static \<open>selector\<close> (\<open>None\<close>
  when \<open>typeof Component.selector\<close> is \<open>"undefined"\<close>) and its constructor, which returns an
  instance or throws. DOM nodes are numbered.
\<close>

type_synonym node = nat

record 'i component_class =
  name :: string
  selector :: "string option"
  new_instance :: "node \<Rightarrow> js_error + 'i"

record 'i ComponentManager =
  Component :: "'i component_class"
  parentEl :: node
  components :: "'i list"

text \<open>
  \<^verbatim>\<open>`Component "${Component.name}" must define a static 'selector'.`\<close>
\<close>

definition selector_message :: "string \<Rightarrow> string" where
  "selector_message n =
     ''Component '' @ [CHR 0x22] @ n @ [CHR 0x22] @ '' must define a static '' @
     [CHR 0x27] @ ''selector'' @ [CHR 0x27] @ ''.''"

text \<open>
  \<^verbatim>\<open>for (const node of nodes) this.components.push(new Component(node));\<close>
  The first component of the result lists the instances created, also when a later
  constructor call throws.
\<close>

fun make_each :: "(node \<Rightarrow> js_error + 'i) \<Rightarrow> node list \<Rightarrow> 'i list \<Rightarrow> 'i list \<times> (js_error + 'i list)" where
  "make_each mk [] acc = (acc, Inr acc)"
| "make_each mk (n # ns) acc =
     (case mk n of
        Inl err \<Rightarrow> (acc, Inl err)
      | Inr c \<Rightarrow> make_each mk ns (acc @ [c]))"

text \<open>
  The constructor. \<open>query\<close> is \<open>$all\<close>, that is \<open>querySelectorAll\<close> under the parent element
  (it throws on a selector it cannot parse). The result is the list of instances created
  and either the exception thrown or the manager.
\<close>

definition ComponentManager_new ::
  "'i component_class \<Rightarrow> node \<Rightarrow> (string \<Rightarrow> node \<Rightarrow> js_error + node list)
     \<Rightarrow> 'i list \<times> (js_error + 'i ComponentManager)" where
  "ComponentManager_new C parent query =
     (case selector C of
        None \<Rightarrow> ([], Inl (Error (selector_message (name C))))
      | Some sel \<Rightarrow>
          (case query sel parent of
             Inl err \<Rightarrow> ([], Inl err)
           | Inr nodes \<Rightarrow>
               (case make_each (new_instance C) nodes [] of
                  (made, Inl err) \<Rightarrow> (made, Inl err)
                | (made, Inr cs) \<Rightarrow>
                    (made, Inr \<lparr> Component = C, parentEl = parent, components = cs \<rparr>))))"

text \<open>Two classes and a document used in examples.\<close>

definition Button_class :: "node component_class" where
  "Button_class =
     \<lparr> name = ''Button'', selector = Some ''.js-btn:not(.js-manager-ignore)'',
       new_instance = (\<lambda>n. Inr n) \<rparr>"

definition Plain_class :: "node component_class" where
  "Plain_class = \<lparr> name = ''Plain'', selector = None, new_instance = (\<lambda>n. Inr n) \<rparr>"

definition two_buttons :: "string \<Rightarrow> node \<Rightarrow> js_error + node list" where
  "two_buttons sel parent = Inr [4, 9]"

section \<open>Array.prototype.sort\<close>

text \<open>
  Both frame dispatchers sort their array with \<open>Array.prototype.sort\<close> and a comparison
  function. ECMAScript fixes the result only for a consistent comparison function: the
  sort is then stable, and the result is the one stable ordering of the array. For a
  comparison function that is not consistent the order is left to the engine.

  The model is the sort of V8, the engine of Chrome, Edge and Node, as it runs on an
  array of fewer than 64 elements (\<open>ArrayTimSortImpl\<close> with a minimal run length equal to
  the length): \<open>CountAndMakeRun\<close> finds the run at the start of the array and reverses
  it when it is descending, then \<open>BinaryInsertionSort\<close> inserts the remaining elements one
  by one. From 64 elements on V8 cuts the array into several runs and merges them; for a
  consistent comparison function the result is the same.

  A comparison function returns a number, read by its sign; it is an integer here.
\<close>

text \<open>
  The binary search of \<open>BinaryInsertionSort\<close>: the place of \<open>pivot\<close> in \<open>a[left..right)\<close>.
  \<^verbatim>\<open>while (left < right) { mid = left + ((right - left) >> 1);
     order = Compare(pivot, a[mid]); if (order < 0) right = mid; else left = mid + 1; }\<close>
\<close>

function binarySearch :: "('a \<Rightarrow> 'a \<Rightarrow> int) \<Rightarrow> 'a \<Rightarrow> 'a list \<Rightarrow> nat \<Rightarrow> nat \<Rightarrow> nat" where
  "binarySearch comparefn pivot a left right =
     (if left < right then
        (let mid = left + (right - left) div 2 in
         if comparefn pivot (a ! mid) < 0
         then binarySearch comparefn pivot a left mid
         else binarySearch comparefn pivot a (mid + 1) right)
      else left)"
  by pat_completeness auto
termination
  by (relation "measure (\<lambda>(comparefn, pivot, a, left, right). right - left)") auto

declare binarySearch.simps [simp del]

text \<open>
  \<open>BinaryInsertionSort\<close>: each remaining element is inserted into the sorted part at the
  place the binary search gives, the elements from there on moving one place up.
\<close>

fun binaryInsertionSort :: "('a \<Rightarrow> 'a \<Rightarrow> int) \<Rightarrow> 'a list \<Rightarrow> 'a list \<Rightarrow> 'a list" where
  "binaryInsertionSort comparefn sorted_part [] = sorted_part"
| "binaryInsertionSort comparefn sorted_part (pivot # rest) =
     (let left = binarySearch comparefn pivot sorted_part 0 (length sorted_part)
      in binaryInsertionSort comparefn (take left sorted_part @ pivot # drop left sorted_part) rest)"

text \<open>
  The loop of \<open>CountAndMakeRun\<close>: how many further elements continue the run.
  \<^verbatim>\<open>order = Compare(currentElement, previousElement);
     if (isDescending) { if (order >= 0) break; } else { if (order < 0) break; }\<close>
\<close>

fun extendRun :: "('a \<Rightarrow> 'a \<Rightarrow> int) \<Rightarrow> bool \<Rightarrow> 'a \<Rightarrow> 'a list \<Rightarrow> nat" where
  "extendRun comparefn isDescending previousElement [] = 0"
| "extendRun comparefn isDescending previousElement (currentElement # rest) =
     (let order = comparefn currentElement previousElement in
      if (if isDescending then order \<ge> 0 else order < 0) then 0
      else 1 + extendRun comparefn isDescending currentElement rest)"

text \<open>
  \<open>CountAndMakeRun\<close> on an array of at least two elements: the run is descending when
  \<open>Compare(a[1], a[0]) < 0\<close>, and a descending run is reversed in place. The result is the
  array and the length of the run.
\<close>

fun countAndMakeRun :: "('a \<Rightarrow> 'a \<Rightarrow> int) \<Rightarrow> 'a list \<Rightarrow> 'a list \<times> nat" where
  "countAndMakeRun comparefn (elementHigh # elementLow # rest) =
     (let isDescending = (comparefn elementLow elementHigh < 0);
          runLength = 2 + extendRun comparefn isDescending elementLow rest;
          a = elementHigh # elementLow # rest
      in (if isDescending then rev (take runLength a) @ drop runLength a else a, runLength))"
| "countAndMakeRun comparefn a = (a, length a)"

text \<open>\<open>a.sort(comparefn)\<close>; an array of fewer than two elements is returned as it is.\<close>

definition sort_array :: "('a \<Rightarrow> 'a \<Rightarrow> int) \<Rightarrow> 'a list \<Rightarrow> 'a list" where
  "sort_array comparefn a =
     (if length a < 2 then a
      else case countAndMakeRun comparefn a of
             (a', runLength) \<Rightarrow>
               binaryInsertionSort comparefn (take runLength a') (drop runLength a'))"

section \<open>RAFCollection\<close>

text \<open>An element \<open>{ cb, index }\<close> of \<open>this.callbacks\<close>.\<close>

record item =
  cb :: cb
  index :: int

text \<open>
  The collection; \<open>raf_user\<close> stands for everything else a callback may read or write.
  The constructor also subscribes \<open>_onRAF\<close> to the frame event of the Emitter; a tick
  is a call of \<open>_onRAF\<close>.
\<close>

record 'u RAFCollection =
  callbacks :: "item list"
  raf_user :: 'u

definition RAFCollection_new :: "'u \<Rightarrow> 'u RAFCollection" where
  "RAFCollection_new u = \<lparr> callbacks = [], raf_user = u \<rparr>"

text \<open>\<^verbatim>\<open>(a, b) => (a.index > b.index ? 1 : -1)\<close>\<close>

definition compare_add :: "item \<Rightarrow> item \<Rightarrow> int" where
  "compare_add a b = (if index a > index b then 1 else - 1)"

text \<open>
  \<^verbatim>\<open>add(cb, index = 0) { this.callbacks.push({ cb, index }); this.callbacks.sort(...); }\<close>
\<close>

definition add :: "cb \<Rightarrow> int \<Rightarrow> 'u RAFCollection \<Rightarrow> 'u RAFCollection" where
  "add c k s =
     s\<lparr> callbacks := sort_array compare_add (callbacks s @ [\<lparr> cb = c, index = k \<rparr>]) \<rparr>"

text \<open>
  \<^verbatim>\<open>remove(cb) { this.callbacks = this.callbacks.filter(item => item.cb !== cb); }\<close>
\<close>

definition remove :: "cb \<Rightarrow> 'u RAFCollection \<Rightarrow> 'u RAFCollection" where
  "remove c s = s\<lparr> callbacks := filter (\<lambda>item. cb item \<noteq> c) (callbacks s) \<rparr>"

text \<open>
  \<open>_onRAF\<close> from position \<open>i\<close> on:
  \<^verbatim>\<open>for (let i = 0; i < this.callbacks.length; i++) {
     try { this.callbacks[i].cb(t); } catch (e) { /* swallow per-frame errors */ } }\<close>
  \<open>this.callbacks\<close> is read anew at every step. A throw is caught and the loop goes on
  from the state the callback left. The loop need not end (each callback may add
  another one), so the result is optional. The first component of the result lists the
  callbacks called, in the order of the calls.
\<close>

partial_function (option) onRAF_from ::
  "(cb \<Rightarrow> real \<Rightarrow> 'u RAFCollection \<Rightarrow> 'u RAFCollection completion) \<Rightarrow> real \<Rightarrow> nat \<Rightarrow> cb list
     \<Rightarrow> 'u RAFCollection \<Rightarrow> (cb list \<times> 'u RAFCollection) option" where
  "onRAF_from beh t i called s =
     (if i < length (callbacks s) then
        (let c = cb (callbacks s ! i) in
         case beh c t s of
           Inl (err, s') \<Rightarrow> onRAF_from beh t (i + 1) (called @ [c]) s'
         | Inr s' \<Rightarrow> onRAF_from beh t (i + 1) (called @ [c]) s')
      else Some (called, s))"

definition onRAF ::
  "(cb \<Rightarrow> real \<Rightarrow> 'u RAFCollection \<Rightarrow> 'u RAFCollection completion) \<Rightarrow> real
     \<Rightarrow> 'u RAFCollection \<Rightarrow> (cb list \<times> 'u RAFCollection) option" where
  "onRAF beh t s = onRAF_from beh t 0 [] s"

section \<open>Frame dispatcher of RuntimeProvider\<close>

text \<open>
  \<^verbatim>\<open>type Entry = { index: number; cb: RafCB }\<close>. The unsubscribe closure compares entries
  by identity (\<open>x !== e\<close>); \<open>ref\<close> is the identity of the entry object.
\<close>

record Entry = item +
  ref :: nat

text \<open>
  \<open>subs\<close> is a reference cell holding an array. \<open>onRaf\<close> changes the array it holds in
  place; the unsubscribe closure stores a new array in the cell; a running \<open>for ... of\<close>
  keeps walking the array it started on. The arrays therefore live in a store, \<open>arrays\<close>,
  addressed by number, and \<open>subs_current\<close> is the address held by \<open>subs.current\<close>.
  \<open>next_ref\<close> is the identity of the next entry object, \<open>raf_requested\<close> says that a frame
  has been requested and not yet run, and \<open>rt_user\<close> stands for everything else a
  callback may read or write.
\<close>

record 'u Runtime =
  arrays :: "Entry list list"
  subs_current :: nat
  next_ref :: nat
  raf_requested :: bool
  rt_user :: 'u

definition array_at :: "'u Runtime \<Rightarrow> nat \<Rightarrow> Entry list" where
  "array_at s a = (if a < length (arrays s) then arrays s ! a else [])"

text \<open>The array held by \<open>subs.current\<close>.\<close>

definition subs :: "'u Runtime \<Rightarrow> Entry list" where
  "subs s = array_at s (subs_current s)"

text \<open>\<^verbatim>\<open>useRef<Entry[]>([])\<close>, before the first frame is requested.\<close>

definition Runtime_init :: "'u \<Rightarrow> 'u Runtime" where
  "Runtime_init u =
     \<lparr> arrays = [[]], subs_current = 0, next_ref = 0, raf_requested = False, rt_user = u \<rparr>"

text \<open>\<^verbatim>\<open>(a,b) => a.index - b.index\<close>\<close>

definition compare_onRaf :: "Entry \<Rightarrow> Entry \<Rightarrow> int" where
  "compare_onRaf a b = index a - index b"

text \<open>
  \<^verbatim>\<open>const e: Entry = { index, cb }; subs.current.push(e); subs.current.sort(...);
     return () => { subs.current = subs.current.filter(x => x !== e); };\<close>
  The closure returned is represented by the identity of \<open>e\<close>, and calling it is
  \<open>unsubscribe\<close>.
\<close>

definition onRaf :: "cb \<Rightarrow> int \<Rightarrow> 'u Runtime \<Rightarrow> nat \<times> 'u Runtime" where
  "onRaf c k s =
     (let e = \<lparr> cb = c, index = k, ref = next_ref s \<rparr>;
          a = subs_current s
      in (ref e,
          s\<lparr> arrays := (arrays s)[a := sort_array compare_onRaf (array_at s a @ [e])],
            next_ref := next_ref s + 1 \<rparr>))"

definition unsubscribe :: "nat \<Rightarrow> 'u Runtime \<Rightarrow> 'u Runtime" where
  "unsubscribe r s =
     s\<lparr> arrays := arrays s @ [filter (\<lambda>x. ref x \<noteq> r) (array_at s (subs_current s))],
       subs_current := length (arrays s) \<rparr>"

text \<open>
  \<^verbatim>\<open>for (const e of subs.current) e.cb(t);\<close> from position \<open>i\<close> on, walking the array at
  address \<open>a\<close>. There is no \<open>try\<close>: a throw ends the walk and leaves \<open>loop\<close>.
\<close>

partial_function (option) loop_from ::
  "(cb \<Rightarrow> real \<Rightarrow> 'u Runtime \<Rightarrow> 'u Runtime completion) \<Rightarrow> real \<Rightarrow> nat \<Rightarrow> nat \<Rightarrow> cb list
     \<Rightarrow> 'u Runtime \<Rightarrow> (cb list \<times> 'u Runtime completion) option" where
  "loop_from beh t a i called s =
     (if i < length (array_at s a) then
        (let c = cb (array_at s a ! i) in
         case beh c t s of
           Inl err \<Rightarrow> Some (called @ [c], Inl err)
         | Inr s' \<Rightarrow> loop_from beh t a (i + 1) (called @ [c]) s')
      else Some (called, Inr s))"

text \<open>
  \<^verbatim>\<open>const loop = (t) => { raf = requestAnimationFrame(loop); for (...) e.cb(t); };\<close>
  The next frame is requested before the callbacks run.
\<close>

definition loop ::
  "(cb \<Rightarrow> real \<Rightarrow> 'u Runtime \<Rightarrow> 'u Runtime completion) \<Rightarrow> real \<Rightarrow> 'u Runtime
     \<Rightarrow> (cb list \<times> 'u Runtime completion) option" where
  "loop beh t s =
     (let s1 = s\<lparr> raf_requested := True \<rparr>
      in loop_from beh t (subs_current s1) 0 [] s1)"

text \<open>
  Behaviours used in examples: callback 1 removes itself from the collection; callback 1
  calls the unsubscribe closure of entry 0.
\<close>

definition removes_itself :: "cb \<Rightarrow> real \<Rightarrow> 'u RAFCollection \<Rightarrow> 'u RAFCollection completion" where
  "removes_itself c t s = (if c = 1 then Inr (remove 1 s) else Inr s)"

definition unsubscribes_itself :: "cb \<Rightarrow> real \<Rightarrow> 'u Runtime \<Rightarrow> 'u Runtime completion" where
  "unsubscribes_itself c t s = (if c = 1 then Inr (unsubscribe 0 s) else Inr s)"

text \<open>
  A sequence of subscribe calls, each a callback with its priority, in the order of the
  calls: on a RAFCollection and on the dispatcher of RuntimeProvider.
\<close>

fun add_all :: "(cb \<times> int) list \<Rightarrow> 'u RAFCollection \<Rightarrow> 'u RAFCollection" where
  "add_all [] s = s"
| "add_all ((c, k) # regs) s = add_all regs (add c k s)"

fun onRaf_all :: "(cb \<times> int) list \<Rightarrow> 'u Runtime \<Rightarrow> 'u Runtime" where
  "onRaf_all [] s = s"
| "onRaf_all ((c, k) # regs) s = onRaf_all regs (snd (onRaf c k s))"

section \<open>The coordinate spaces as the specification words them\<close>

definition screenNormalized :: "vec2 \<Rightarrow> real \<Rightarrow> real \<Rightarrow> vec2" where
  "screenNormalized p vw vh = (fst p / vw, snd p / vh)"

definition deviceNormalized :: "vec2 \<Rightarrow> real \<Rightarrow> real \<Rightarrow> vec2" where
  "deviceNormalized p vw vh = (2 * fst p / vw - 1, - (2 * snd p / vh - 1))"

definition centeredPixels :: "vec2 \<Rightarrow> real \<Rightarrow> real \<Rightarrow> vec2" where
  "centeredPixels p vw vh = (fst p - vw / 2, - (snd p - vh / 2))"

text \<open>
  Cross-space consistency of a \<open>PointerSpaces\<close> value: the three derived spaces are the
  specification's formulas applied to the stored pixel sample.
\<close>

definition consistent :: "real \<Rightarrow> real \<Rightarrow> PointerSpaces \<Rightarrow> bool" where
  "consistent vw vh p \<longleftrightarrow>
     screen p = screenNormalized (px p) vw vh \<and>
     ndc p = deviceNormalized (px p) vw vh \<and>
     gl p = centeredPixels (px p) vw vh"

section \<open>Velocity\<close>

text \<open>
  C5. For two consecutive samples, the second handled at time \<open>t1\<close> after the first at
  \<open>t0\<close>, the velocity stored by the second call is the difference of the positions
  divided by \<open>max 1 (t1 - t0)\<close>, per axis, whatever the tracker held before. For the
  samples \<open>(x = 0, t = 0)\<close> then \<open>(x = 10, t = 5)\<close> the x velocity is 2.
\<close>

theorem onMove_velocity:
  assumes "touches0 e0 = Inr (x0, y0)" and "touches0 e1 = Inr (x1, y1)"
  shows "(\<exists>s1 s2. onMove e0 vw vh t0 s = Inr s1 \<and>
            onMove e1 vw' vh' t1 s1 = Inr s2 \<and>
            v (pointer s2) = ((x1 - x0) / max 1 (t1 - t0), (y1 - y0) / max 1 (t1 - t0))) \<and>
         (\<exists>s1 s2. onMove (MouseEvent 0 y0) vw vh 0 s = Inr s1 \<and>
            onMove (MouseEvent 10 y1) vw' vh' 5 s1 = Inr s2 \<and>
            fst (v (pointer s2)) = 2)"
  using assms by (simp add: onMove_def Let_def split: prod.splits)

theorem onMove_velocity_witness:
  "touches0 (MouseEvent 0 0) = Inr (0, 0) \<and> touches0 (TouchEvent [(10, 4)] []) = Inr (10, 4) \<and>
   (\<exists>s1 s2. onMove (MouseEvent 0 0) 200 100 0 (tracker_init 0) = Inr s1 \<and>
            onMove (TouchEvent [(10, 4)] []) 200 100 5 s1 = Inr s2 \<and>
            v (pointer s2) = (2, 4 / 5))"
  using onMove_velocity [of "MouseEvent 0 0" 0 0 "TouchEvent [(10, 4)] []" 10 4 200 100 0
                            "tracker_init 0" 200 100 5]
  by simp

section \<open>Coordinate spaces\<close>

text \<open>
  C4, amended. With a viewport of positive size, \<open>onMove\<close> stores
  \<open>screen = (x/w, y/h)\<close>, \<open>ndc = (2x/w - 1, -(2y/h - 1))\<close> and \<open>gl = (x - w/2, -(y - h/2))\<close>.
  \<open>_onPointerMove\<close> stores the same device-normalized and centered values in
  \<open>glNormalized\<close> and \<open>gl\<close>, and stores \<open>(x/w, 1 - y/h)\<close>, with the vertical axis pointing
  up, in \<open>glScreenSpace\<close>. At \<open>x = 100\<close>, \<open>y = 50\<close>, \<open>w = 200\<close>, \<open>h = 100\<close> both handlers
  give \<open>(0.5, 0.5)\<close>, \<open>(0, 0)\<close> and \<open>(0, 0)\<close>.
\<close>

theorem pointer_spaces_formulas:
  assumes "0 < vw" and "0 < vh"
    and "touches0 e = Inr (cx, cy)" and "changedTouches0 e = Inr (cx, cy)"
    and "window_w m = vw" and "window_h m = vh"
  shows "(\<exists>s'. onMove e vw vh now s = Inr s' \<and>
            screen (pointer s') = screenNormalized (cx, cy) vw vh \<and>
            ndc (pointer s') = deviceNormalized (cx, cy) vw vh \<and>
            gl (pointer s') = centeredPixels (cx, cy) vw vh) \<and>
         (\<exists>m'. onPointerMove e m = Inr m' \<and>
            mouse_glScreenSpace (mouse m') = Some (cx / vw, 1 - cy / vh) \<and>
            mouse_glNormalized (mouse m') = Some (deviceNormalized (cx, cy) vw vh) \<and>
            mouse_gl (mouse m') = Some (centeredPixels (cx, cy) vw vh)) \<and>
         (\<exists>s'. onMove (MouseEvent 100 50) 200 100 now s = Inr s' \<and>
            screen (pointer s') = (1 / 2, 1 / 2) \<and> ndc (pointer s') = (0, 0) \<and>
            gl (pointer s') = (0, 0)) \<and>
         (\<exists>m'. onPointerMove (MouseEvent 100 50) (m\<lparr> window_w := 200, window_h := 100 \<rparr>) = Inr m' \<and>
            mouse_glScreenSpace (mouse m') = Some (1 / 2, 1 / 2) \<and>
            mouse_glNormalized (mouse m') = Some (0, 0) \<and>
            mouse_gl (mouse m') = Some (0, 0))"
  using assms
  by (simp add: onMove_def onPointerMove_def Let_def screenNormalized_def deviceNormalized_def
        centeredPixels_def split: prod.splits)

theorem pointer_spaces_formulas_witness:
  "(0::real) < 200 \<and> (0::real) < 100 \<and>
   touches0 (MouseEvent 30 80) = Inr (30, 80) \<and> changedTouches0 (MouseEvent 30 80) = Inr (30, 80) \<and>
   window_w (InputManager_new 200 100) = 200 \<and> window_h (InputManager_new 200 100) = 100 \<and>
   (\<exists>s'. onMove (MouseEvent 30 80) 200 100 7 (tracker_init 0) = Inr s' \<and>
         screen (pointer s') = (3 / 20, 4 / 5) \<and> ndc (pointer s') = (- 7 / 10, - 3 / 5) \<and>
         gl (pointer s') = (- 70, - 30)) \<and>
   (\<exists>m'. onPointerMove (MouseEvent 30 80) (InputManager_new 200 100) = Inr m' \<and>
         mouse_glScreenSpace (mouse m') = Some (3 / 20, 1 / 5) \<and>
         mouse_glNormalized (mouse m') = Some (- 7 / 10, - 3 / 5) \<and>
         mouse_gl (mouse m') = Some (- 70, - 30))"
  using pointer_spaces_formulas [of 200 100 "MouseEvent 30 80" 30 80 "InputManager_new 200 100" 7
                                    "tracker_init 0"]
  by (simp add: InputManager_new_def onResize_def screenNormalized_def deviceNormalized_def
        centeredPixels_def)

text \<open>
  The claim as stated fails for \<open>_onPointerMove\<close>: at \<open>x = 100\<close>, \<open>y = 25\<close> in a viewport of
  200 by 100 its screen-normalized vector is \<open>(0.5, 0.75)\<close>, and \<open>(x/w, y/h)\<close> is
  \<open>(0.5, 0.25)\<close>.
\<close>

theorem onPointerMove_screen_space_counterexample:
  "(case onPointerMove (MouseEvent 100 25) (InputManager_new 200 100) of
      Inl err \<Rightarrow> None
    | Inr m' \<Rightarrow> mouse_glScreenSpace (mouse m')) = Some (1 / 2, 3 / 4) \<and>
   screenNormalized (100, 25) 200 100 = (1 / 2, 1 / 4)"
  by (simp add: onPointerMove_def InputManager_new_def onResize_def Let_def screenNormalized_def)

section \<open>Recomputation of all spaces by one event\<close>

text \<open>
  C7, amended. A move event with contact point \<open>(x, y)\<close> makes \<open>onMove\<close> overwrite all five
  fields of the pointer state: the result is determined by the sample, the viewport read
  in the handler and, for the velocity, the previous sample and the clock; nothing of the
  previous pointer state is left in it, and its three derived spaces agree with its pixel
  sample. \<open>_onPointerMove\<close> overwrites the raw position and the three vectors \<open>gl\<close>,
  \<open>glNormalized\<close> and \<open>glScreenSpace\<close> from the one sample and \<open>G.window\<close>; it keeps no
  velocity and does not write \<open>G.mouse.smooth.glNormalized\<close>.
\<close>

theorem pointer_spaces_recomputed_together:
  assumes "touches0 e = Inr (cx, cy)" and "changedTouches0 e' = Inr (cx', cy')"
  shows "(\<exists>s'. onMove e vw vh now s = Inr s' \<and>
            pointer s' =
              \<lparr> px = (cx, cy), screen = (cx / vw, cy / vh),
                ndc = ((cx / vw) * 2 - 1, - ((cy / vh) * 2 - 1)),
                gl = (cx - vw / 2, - (cy - vh / 2)),
                v = ((cx - fst (last_sample s)) / max 1 (now - snd (snd (last_sample s))),
                     (cy - fst (snd (last_sample s))) / max 1 (now - snd (snd (last_sample s)))) \<rparr> \<and>
            last_sample s' = (cx, cy, now) \<and>
            consistent vw vh (pointer s')) \<and>
         (\<exists>m'. onPointerMove e' m = Inr m' \<and>
            mouse m' =
              \<lparr> mouse_x = cx', mouse_y = cy',
                mouse_gl = Some (cx' - window_w m / 2, - (cy' - window_h m / 2)),
                mouse_glNormalized = Some ((cx' / window_w m) * 2 - 1, - (cy' / window_h m) * 2 + 1),
                mouse_glScreenSpace = Some (cx' / window_w m, 1 - cy' / window_h m),
                mouse_smooth_glNormalized = mouse_smooth_glNormalized (mouse m) \<rparr> \<and>
            mousePos m' = (cx', cy') \<and> window_w m' = window_w m \<and> window_h m' = window_h m)"
  using assms
  by (simp add: onMove_def onPointerMove_def Let_def consistent_def screenNormalized_def
        deviceNormalized_def centeredPixels_def split: prod.splits)

theorem pointer_spaces_recomputed_together_witness:
  "touches0 (TouchEvent [(30, 80)] [(30, 80)]) = Inr (30, 80) \<and>
   changedTouches0 (MouseEvent 30 80) = Inr (30, 80) \<and>
   (\<exists>s'. onMove (TouchEvent [(30, 80)] [(30, 80)]) 200 100 7 (tracker_init 0) = Inr s' \<and>
         pointer s' = \<lparr> px = (30, 80), screen = (3 / 20, 4 / 5), ndc = (- 7 / 10, - 3 / 5),
                        gl = (- 70, - 30), v = (30 / 7, 80 / 7) \<rparr>) \<and>
   (\<exists>m'. onPointerMove (MouseEvent 30 80) (InputManager_new 200 100) = Inr m' \<and>
         mouse m' = \<lparr> mouse_x = 30, mouse_y = 80, mouse_gl = Some (- 70, - 30),
                      mouse_glNormalized = Some (- 7 / 10, - 3 / 5),
                      mouse_glScreenSpace = Some (3 / 20, 1 / 5),
                      mouse_smooth_glNormalized = None \<rparr>)"
  using pointer_spaces_recomputed_together
          [of "TouchEvent [(30, 80)] [(30, 80)]" 30 80 "MouseEvent 30 80" 30 80 200 100 7
              "tracker_init 0" "InputManager_new 200 100"]
  by (auto simp: tracker_init_def InputManager_new_def onResize_def G_mouse_init_def)

text \<open>
  The claim as stated fails for \<open>_onPointerMove\<close>: the input manager keeps no velocity,
  and of the five position vectors of \<open>G.mouse\<close> the handler writes four. After a move to
  \<open>(100, 50)\<close> in a viewport of 200 by 100, \<open>glNormalized\<close> is \<open>(0, 0)\<close> and
  \<open>smooth.glNormalized\<close> is still undefined.
\<close>

theorem onPointerMove_smooth_counterexample:
  "(case onPointerMove (MouseEvent 100 50) (InputManager_new 200 100) of
      Inl err \<Rightarrow> None
    | Inr m' \<Rightarrow> Some (mouse_glNormalized (mouse m'), mouse_smooth_glNormalized (mouse m'))) =
   Some (Some (0, 0), None)"
  by (simp add: onPointerMove_def InputManager_new_def onResize_def Let_def G_mouse_init_def)

section \<open>The initial pointer state\<close>

text \<open>
  C10. Before the first move the pointer state is \<open>px = (0,0)\<close>, \<open>screen = (0,0)\<close>,
  \<open>ndc = (-1,-1)\<close>, \<open>gl = (0,0)\<close>, \<open>v = (0,0)\<close>. For a viewport of positive size the
  device-normalized formula at the stored pixel sample gives \<open>(-1, 1)\<close>, which is not the
  stored \<open>ndc\<close>, so the initial state is not cross-space consistent; the state after any
  move event is.
\<close>

theorem pointer_init_not_consistent:
  assumes "0 < vw" and "0 < vh" and "touches0 e = Inr (cx, cy)"
  shows "pointer (tracker_init t0) =
           \<lparr> px = (0, 0), screen = (0, 0), ndc = (-1, -1), gl = (0, 0), v = (0, 0) \<rparr> \<and>
         deviceNormalized (px (pointer (tracker_init t0))) vw vh = (-1, 1) \<and>
         ndc (pointer (tracker_init t0)) \<noteq> deviceNormalized (px (pointer (tracker_init t0))) vw vh \<and>
         \<not> consistent vw vh (pointer (tracker_init t0)) \<and>
         (\<exists>s'. onMove e vw vh now (tracker_init t0) = Inr s' \<and> consistent vw vh (pointer s'))"
  using assms
  by (simp add: tracker_init_def pointer_init_def onMove_def Let_def consistent_def
        screenNormalized_def deviceNormalized_def centeredPixels_def)

theorem pointer_init_not_consistent_witness:
  "(0::real) < 200 \<and> (0::real) < 100 \<and> touches0 (MouseEvent 30 80) = Inr (30, 80) \<and>
   ndc (pointer (tracker_init 0)) = (-1, -1) \<and>
   deviceNormalized (px (pointer (tracker_init 0))) 200 100 = (-1, 1) \<and>
   \<not> consistent 200 100 (pointer (tracker_init 0)) \<and>
   (\<exists>s'. onMove (MouseEvent 30 80) 200 100 7 (tracker_init 0) = Inr s' \<and>
         consistent 200 100 (pointer s'))"
  using pointer_init_not_consistent [of 200 100 "MouseEvent 30 80" 30 80 0 7]
  by auto

section \<open>Event bus delivery\<close>

lemma members_append: "members (es @ fs) = members es @ members fs"
  by (induction es rule: members.induct) auto

lemma set_members: "set (members es) = {c. Some c \<in> set es}"
  by (induction es rule: members.induct) auto

lemma members_set_add:
  "members (set_add c es) = (if c \<in> set (members es) then members es else members es @ [c])"
  by (simp add: set_add_def members_append set_members)

lemma registered_on:
  "registered (on evt c s) evt =
     (if c \<in> set (registered s evt) then registered s evt else registered s evt @ [c])"
  by (cases "handlers s evt") (simp_all add: registered_def on_def Let_def members_set_add)

lemma members_drop_Suc:
  "i < length es \<Longrightarrow>
   members (drop i es) = (case es ! i of None \<Rightarrow> [] | Some c \<Rightarrow> [c]) @ members (drop (Suc i) es)"
  by (cases "es ! i") (simp_all add: Cons_nth_drop_Suc [symmetric])

text \<open>A walk over slots that hold no handler calls nothing and leaves the state as it was.\<close>

lemma emit_from_quiet:
  assumes "handlers s evt = Some es" and "members (drop i es) = []"
  shows "emit_from beh evt payload i called s = Some (called, Inr s)"
  using assms
proof (induction "length es - i" arbitrary: i)
  case 0
  then show ?case by (subst emit_from.simps) simp
next
  case (Suc n)
  then have lt: "i < length es" by simp
  with Suc.prems have none: "es ! i = None" and rest: "members (drop (Suc i) es) = []"
    by (auto simp: members_drop_Suc split: option.splits)
  from Suc have "emit_from beh evt payload (Suc i) called s = Some (called, Inr s)"
    using rest by simp
  with lt none Suc.prems show ?case by (subst emit_from.simps) simp
qed

text \<open>
  When nothing disturbs the delivery of the members from slot \<open>i\<close> on, the walk from slot
  \<open>i\<close> returns, having called exactly these members in order.
\<close>

lemma emit_from_undisturbed:
  "handlers s evt = Some es \<Longrightarrow> undisturbed beh evt payload es (members (drop i es)) s \<Longrightarrow>
   \<exists>s'. emit_from beh evt payload i called s = Some (called @ members (drop i es), Inr s')"
proof (induction "length es - i" arbitrary: i called s)
  case 0
  then show ?case by (subst emit_from.simps) simp
next
  case (Suc n)
  then have lt: "i < length es" by simp
  have n: "n = length es - Suc i" using Suc.hyps(2) by simp
  show ?case
  proof (cases "es ! i")
    case None
    with lt Suc.prems(2) have "undisturbed beh evt payload es (members (drop (Suc i) es)) s"
      by (simp add: members_drop_Suc)
    from Suc.hyps(1) [OF n Suc.prems(1) this]
    obtain s' where "emit_from beh evt payload (Suc i) called s =
        Some (called @ members (drop (Suc i) es), Inr s')" by blast
    with lt None Suc.prems(1) show ?thesis
      by (subst emit_from.simps) (simp add: members_drop_Suc)
  next
    case (Some c)
    with lt Suc.prems(2) have "undisturbed beh evt payload es (c # members (drop (Suc i) es)) s"
      by (simp add: members_drop_Suc)
    then obtain s1 where b: "beh c payload s = Inr s1"
      and h: "handlers s1 evt = Some es"
      and u: "undisturbed beh evt payload es (members (drop (Suc i) es)) s1"
      by (auto split: sum.splits)
    from Suc.hyps(1) [OF n h u]
    obtain s' where "emit_from beh evt payload (Suc i) (called @ [c]) s1 =
        Some ((called @ [c]) @ members (drop (Suc i) es), Inr s')" by blast
    with lt Some Suc.prems(1) b show ?thesis
      by (subst emit_from.simps) (simp add: members_drop_Suc)
  qed
qed

text \<open>
  A property of the states that holds at emit time and that every registered handler,
  called in a state that has it, keeps while returning normally and leaving the topic's
  set unchanged, makes the delivery undisturbed.
\<close>

lemma undisturbed_invariant:
  assumes "\<And>c s'. c \<in> set cs0 \<Longrightarrow> Q s' \<Longrightarrow> handlers s' evt = Some es \<Longrightarrow>
             \<exists>s''. beh c payload s' = Inr s'' \<and> handlers s'' evt = Some es \<and> Q s''"
  shows "set cs \<subseteq> set cs0 \<Longrightarrow> Q s \<Longrightarrow> handlers s evt = Some es \<Longrightarrow>
         undisturbed beh evt payload es cs s"
proof (induction cs arbitrary: s)
  case Nil
  show ?case by simp
next
  case (Cons c cs)
  then have "c \<in> set cs0" by simp
  from assms [OF this Cons.prems(2,3)] obtain s1 where b: "beh c payload s = Inr s1"
    and h: "handlers s1 evt = Some es" and i: "Q s1" by blast
  from Cons.prems(1) have "set cs \<subseteq> set cs0" by simp
  from Cons.IH [OF this i h] b h show ?case by simp
qed

lemma emit_delivers_under_invariant:
  assumes "Q s"
    and "\<And>c s'. c \<in> set (registered s evt) \<Longrightarrow> Q s' \<Longrightarrow> handlers s' evt = handlers s evt \<Longrightarrow>
           \<exists>s''. beh c payload s' = Inr s'' \<and> handlers s'' evt = handlers s evt \<and> Q s''"
  shows "\<exists>s'. emit beh evt payload s = Some (registered s evt, Inr s')"
proof (cases "handlers s evt")
  case None
  then show ?thesis by (simp add: emit_def registered_def)
next
  case (Some es)
  have "undisturbed beh evt payload es (members es) s"
  proof (rule undisturbed_invariant [where Q = Q and ?cs0.0 = "members es"])
    fix c s'
    assume "c \<in> set (members es)" and "Q s'" and "handlers s' evt = Some es"
    with assms(2) [of c s'] Some
    show "\<exists>s''. beh c payload s' = Inr s'' \<and> handlers s'' evt = Some es \<and> Q s''"
      by (simp add: registered_def)
  qed (simp_all add: assms(1) Some)
  then have "undisturbed beh evt payload es (members (drop 0 es)) s" by simp
  with Some have "\<exists>s'. emit_from beh evt payload 0 [] s = Some ([] @ members (drop 0 es), Inr s')"
    by (rule emit_from_undisturbed)
  with Some show ?thesis by (simp add: emit_def registered_def)
qed

text \<open>
  C8, amended. \<open>emit\<close> on a topic with no registered handler returns without an error
  and leaves the state unchanged. When, during the delivery, every handler registered
  for the topic returns normally and leaves the topic's handler set unchanged (each
  handler taken in the state in which \<open>emit\<close> calls it), \<open>emit\<close> returns after calling
  exactly the handlers registered at emit time, each once, in registration order.
  Registration order is the order of the first \<open>on\<close> of each handler: \<open>on\<close> appends a
  handler that is not yet registered and changes nothing for one that is.
\<close>

theorem emit_delivers_in_registration_order:
  "(registered s evt = [] \<longrightarrow> emit beh evt payload s = Some ([], Inr s)) \<and>
   (handlers s evt = Some es \<and> undisturbed beh evt payload es (registered s evt) s \<longrightarrow>
      (\<exists>s'. emit beh evt payload s = Some (registered s evt, Inr s'))) \<and>
   registered (bus_init u) evt = [] \<and>
   registered (on evt c s) evt =
     (if c \<in> set (registered s evt) then registered s evt else registered s evt @ [c])"
proof (intro conjI impI)
  assume "registered s evt = []"
  then show "emit beh evt payload s = Some ([], Inr s)"
    by (cases "handlers s evt") (simp_all add: emit_def registered_def emit_from_quiet)
next
  assume h: "handlers s evt = Some es \<and> undisturbed beh evt payload es (registered s evt) s"
  then have es: "handlers s evt = Some es" by simp
  with h have "undisturbed beh evt payload es (members (drop 0 es)) s"
    by (simp add: registered_def)
  with es have es: "handlers s evt = Some es"
    and "undisturbed beh evt payload es (members (drop 0 es)) s"
    by simp_all
  then have "\<exists>s'. emit_from beh evt payload 0 [] s = Some ([] @ members (drop 0 es), Inr s')"
    by (rule emit_from_undisturbed)
  with es show "\<exists>s'. emit beh evt payload s = Some (registered s evt, Inr s')"
    by (simp add: emit_def registered_def)
next
  show "registered (bus_init u) evt = []"
    by (simp add: registered_def bus_init_def)
next
  show "registered (on evt c s) evt =
     (if c \<in> set (registered s evt) then registered s evt else registered s evt @ [c])"
    by (rule registered_on)
qed

text \<open>
  Three handlers whose behaviour depends on the state (they throw once the flag is set),
  delivered to with the flag down.
\<close>

theorem emit_delivers_in_registration_order_witness:
  "handlers (on ''t'' 3 (on ''t'' 2 (on ''t'' 1 (bus_init False)))) ''t'' =
     Some [Some 1, Some 2, Some 3] \<and>
   registered (on ''t'' 3 (on ''t'' 2 (on ''t'' 1 (bus_init False)))) ''t'' = [1, 2, 3] \<and>
   undisturbed throws_when_flagged ''t'' () [Some 1, Some 2, Some 3] [1, 2, 3]
     (on ''t'' 3 (on ''t'' 2 (on ''t'' 1 (bus_init False)))) \<and>
   (\<exists>s'. emit throws_when_flagged ''t'' () (on ''t'' 3 (on ''t'' 2 (on ''t'' 1 (bus_init False)))) =
      Some ([1, 2, 3], Inr s')) \<and>
   registered (on ''t'' 3 (on ''t'' 2 (on ''t'' 1 (bus_init False)))) ''u'' = [] \<and>
   emit throws_when_flagged ''u'' () (on ''t'' 3 (on ''t'' 2 (on ''t'' 1 (bus_init False)))) =
      Some ([], Inr (on ''t'' 3 (on ''t'' 2 (on ''t'' 1 (bus_init False)))))"
proof -
  let ?s = "on ''t'' 3 (on ''t'' 2 (on ''t'' 1 (bus_init False)))"
  have hs: "handlers ?s ''t'' = Some [Some 1, Some 2, Some 3]"
    by (simp add: bus_init_def on_def Let_def set_add_def)
  have r: "registered ?s ''t'' = [1, 2, 3]"
    unfolding registered_def hs by simp
  have ud: "undisturbed throws_when_flagged ''t'' () [Some 1, Some 2, Some 3] [1, 2, 3] ?s"
    by (simp add: throws_when_flagged_def bus_init_def on_def Let_def set_add_def)
  have u: "registered ?s ''u'' = []"
    by (simp add: registered_def bus_init_def on_def Let_def set_add_def)
  have h: "handlers ?s ''t'' = Some [Some 1, Some 2, Some 3] \<and>
           undisturbed throws_when_flagged ''t'' () [Some 1, Some 2, Some 3] (registered ?s ''t'') ?s"
    using hs ud r by simp
  have e: "\<exists>s'. emit throws_when_flagged ''t'' () ?s = Some (registered ?s ''t'', Inr s')"
    by (rule emit_delivers_in_registration_order
          [of ?s "''t''" throws_when_flagged "()" "[Some 1, Some 2, Some 3]" False 0,
           THEN conjunct2, THEN conjunct1, THEN mp, OF h])
  have q: "emit throws_when_flagged ''u'' () ?s = Some ([], Inr ?s)"
    by (rule emit_delivers_in_registration_order
          [of ?s "''u''" throws_when_flagged "()" "[]" False 0, THEN conjunct1, THEN mp, OF u])
  from hs r ud u e q show ?thesis by simp
qed

text \<open>
  The claim as stated fails in three ways. With handlers 1 and 2 registered in this
  order and handler 1 throwing, \<open>emit\<close> calls handler 1 only and the exception leaves
  \<open>emit\<close>. With handlers 1, 2 and 3 registered and handler 1 unsubscribing handler 2,
  \<open>emit\<close> calls 1 and 3: handler 2, registered at emit time, is not called. With handlers
  1, 2 and 3 registered and handler 1 subscribing handler 4, \<open>emit\<close> calls 1, 2, 3 and 4:
  handler 4, not registered at emit time, is called.
\<close>

theorem emit_throw_counterexample:
  "registered (on ''t'' 2 (on ''t'' 1 (bus_init ()))) ''t'' = [1, 2] \<and>
   emit first_throws ''t'' () (on ''t'' 2 (on ''t'' 1 (bus_init ()))) =
     Some ([1], Inl (Error ''boom'', on ''t'' 2 (on ''t'' 1 (bus_init ())))) \<and>
   registered (on ''t'' 3 (on ''t'' 2 (on ''t'' 1 (bus_init ())))) ''t'' = [1, 2, 3] \<and>
   map_option fst
     (emit first_removes_second ''t'' () (on ''t'' 3 (on ''t'' 2 (on ''t'' 1 (bus_init ()))))) =
     Some [1, 3] \<and>
   map_option fst
     (emit first_adds_fourth ''t'' () (on ''t'' 3 (on ''t'' 2 (on ''t'' 1 (bus_init ()))))) =
     Some [1, 2, 3, 4]"
  by (simp add: registered_def emit_def on_def off_def bus_init_def set_add_def set_delete_def
        emit_from.simps first_throws_def first_removes_second_def first_adds_fourth_def Let_def)

section \<open>Construction of a ComponentManager\<close>

lemma make_each_error:
  "make_each mk ns acc = (made, Inl err) \<Longrightarrow> \<exists>n\<in>set ns. mk n = Inl err"
  by (induction ns arbitrary: acc) (auto split: sum.splits)

lemma make_each_ok:
  "\<forall>n\<in>set ns. \<exists>c. mk n = Inr c \<Longrightarrow>
   \<exists>cs. make_each mk ns acc = (acc @ cs, Inr (acc @ cs)) \<and> length cs = length ns"
proof (induction ns arbitrary: acc)
  case Nil
  then show ?case by simp
next
  case (Cons n ns)
  then obtain c where c: "mk n = Inr c" by auto
  from Cons obtain cs where "make_each mk ns (acc @ [c]) = ((acc @ [c]) @ cs, Inr ((acc @ [c]) @ cs))"
    and "length cs = length ns" by (metis list.set_intros(2))
  with c show ?case by (intro exI [of _ "c # cs"]) simp
qed

text \<open>
  C9. When the class defines no static selector, the constructor throws the error naming
  the class before it queries the document or creates any instance. When the selector is
  defined, the constructor passes this check: an exception it throws then comes from the
  document query or from a component constructor, and when neither throws the manager
  holds one instance per matching node.
\<close>

theorem ComponentManager_new_selector:
  "(selector C = None \<longrightarrow>
      ComponentManager_new C parent query = ([], Inl (Error (selector_message (name C))))) \<and>
   (\<forall>sel. selector C = Some sel \<longrightarrow>
      (\<forall>err. snd (ComponentManager_new C parent query) = Inl err \<longrightarrow>
         query sel parent = Inl err \<or> (\<exists>n. new_instance C n = Inl err)) \<and>
      (\<forall>nodes. query sel parent = Inr nodes \<and> (\<forall>n\<in>set nodes. \<exists>c. new_instance C n = Inr c) \<longrightarrow>
         (\<exists>m. snd (ComponentManager_new C parent query) = Inr m \<and>
              length (components m) = length nodes)))"
proof (intro conjI impI allI)
  assume "selector C = None"
  then show "ComponentManager_new C parent query = ([], Inl (Error (selector_message (name C))))"
    by (simp add: ComponentManager_new_def)
next
  fix sel err
  assume "selector C = Some sel" and "snd (ComponentManager_new C parent query) = Inl err"
  then show "query sel parent = Inl err \<or> (\<exists>n. new_instance C n = Inl err)"
    by (auto simp: ComponentManager_new_def split: sum.splits prod.splits dest: make_each_error)
next
  fix sel nodes
  assume s: "selector C = Some sel"
    and q: "query sel parent = Inr nodes \<and> (\<forall>n\<in>set nodes. \<exists>c. new_instance C n = Inr c)"
  then obtain cs where "make_each (new_instance C) nodes [] = ([] @ cs, Inr ([] @ cs))"
    and "length cs = length nodes"
    using make_each_ok [of nodes "new_instance C" "[]"] by blast
  with s q show "\<exists>m. snd (ComponentManager_new C parent query) = Inr m \<and>
              length (components m) = length nodes"
    by (simp add: ComponentManager_new_def)
qed

theorem ComponentManager_new_selector_witness:
  "selector Plain_class = None \<and>
   ComponentManager_new Plain_class 0 two_buttons = ([], Inl (Error (selector_message ''Plain''))) \<and>
   selector_message ''Plain'' =
     ''Component '' @ [CHR 0x22] @ ''Plain'' @ [CHR 0x22] @ '' must define a static '' @
     [CHR 0x27] @ ''selector'' @ [CHR 0x27] @ ''.'' \<and>
   selector Button_class = Some ''.js-btn:not(.js-manager-ignore)'' \<and>
   two_buttons ''.js-btn:not(.js-manager-ignore)'' 0 = Inr [4, 9] \<and>
   new_instance Button_class 4 = Inr 4 \<and> new_instance Button_class 9 = Inr 9 \<and>
   (\<exists>m. snd (ComponentManager_new Button_class 0 two_buttons) = Inr m \<and> length (components m) = length [4::nat, 9])"
proof -
  have p: "selector Plain_class = None" by (simp add: Plain_class_def)
  have b: "selector Button_class = Some ''.js-btn:not(.js-manager-ignore)''"
    by (simp add: Button_class_def)
  have q: "two_buttons ''.js-btn:not(.js-manager-ignore)'' 0 = Inr [4, 9] \<and>
           (\<forall>n\<in>set [4, 9]. \<exists>c. new_instance Button_class n = Inr c)"
    by (simp add: two_buttons_def Button_class_def)
  from ComponentManager_new_selector [of Plain_class 0 two_buttons] p
  have 1: "ComponentManager_new Plain_class 0 two_buttons =
             ([], Inl (Error (selector_message (name Plain_class))))" by blast
  from ComponentManager_new_selector [of Button_class 0 two_buttons] b q
  have 2: "\<exists>m. snd (ComponentManager_new Button_class 0 two_buttons) = Inr m \<and>
             length (components m) = length [4::nat, 9]" by blast
  from p b q 1 2 show ?thesis by (simp add: Plain_class_def selector_message_def) (simp add: Button_class_def)
qed

section \<open>Frame dispatch\<close>

lemmas sort_eval = sort_array_def binarySearch.simps compare_add_def compare_onRaf_def Let_def

lemma subs_unsubscribe: "subs (unsubscribe r s) = filter (\<lambda>x. ref x \<noteq> r) (subs s)"
  by (simp add: subs_def unsubscribe_def array_at_def)

lemma array_at_unsubscribe:
  "a < length (arrays s) \<Longrightarrow> array_at (unsubscribe r s) a = array_at s a"
  by (simp add: unsubscribe_def array_at_def nth_append)

text \<open>
  \<open>_onRAF\<close> calls every callback of the list, throwing or not, as long as the callbacks
  leave the list alone.
\<close>

lemma onRAF_from_calls_all:
  assumes "\<And>c s'. callbacks (state_after (beh c t s')) = callbacks s'"
  shows "\<exists>s'. onRAF_from beh t i called s = Some (called @ map cb (drop i (callbacks s)), s') \<and>
              callbacks s' = callbacks s"
proof (induction "length (callbacks s) - i" arbitrary: i called s)
  case 0
  then show ?case by (subst onRAF_from.simps) simp
next
  case (Suc n)
  then have lt: "i < length (callbacks s)" by simp
  let ?c = "cb (callbacks s ! i)"
  let ?s1 = "state_after (beh ?c t s)"
  have same: "callbacks ?s1 = callbacks s" by (rule assms)
  with Suc.hyps(2) have "n = length (callbacks ?s1) - Suc i" by simp
  from Suc.hyps(1) [OF this, of "called @ [?c]"] same
  obtain s' where r: "onRAF_from beh t (Suc i) (called @ [?c]) ?s1 =
      Some ((called @ [?c]) @ map cb (drop (Suc i) (callbacks s)), s')"
    and k: "callbacks s' = callbacks s" by auto
  have "onRAF_from beh t i called s = onRAF_from beh t (Suc i) (called @ [?c]) ?s1"
    using lt by (subst onRAF_from.simps) (auto simp: Let_def split: sum.splits)
  with r k lt show ?case
    by (simp add: Cons_nth_drop_Suc [symmetric])
qed

text \<open>
  The loop of RuntimeProvider calls every entry of the array it started on when the
  callbacks return and leave that array alone, as the unsubscribe closure does.
\<close>

lemma loop_from_calls_all:
  assumes "\<And>c s'. array_at s' a = es \<Longrightarrow> \<exists>s''. beh c t s' = Inr s'' \<and> array_at s'' a = es"
    and "array_at s a = es"
  shows "\<exists>s'. loop_from beh t a i called s = Some (called @ map cb (drop i es), Inr s')"
  using assms(2)
proof (induction "length es - i" arbitrary: i called s)
  case 0
  then show ?case by (subst loop_from.simps) simp
next
  case (Suc n)
  then have lt: "i < length es" by simp
  let ?c = "cb (es ! i)"
  from assms(1) [OF Suc.prems] obtain s1 where b: "beh ?c t s = Inr s1"
    and h: "array_at s1 a = es" by blast
  have n: "n = length es - Suc i" using Suc.hyps(2) by simp
  from Suc.hyps(1) [OF n h, of "called @ [?c]"]
  obtain s' where "loop_from beh t a (Suc i) (called @ [?c]) s1 =
      Some ((called @ [?c]) @ map cb (drop (Suc i) es), Inr s')" by blast
  with lt b Suc.prems show ?case
    by (subst loop_from.simps) (simp add: Cons_nth_drop_Suc [symmetric])
qed

section \<open>The sort: order and stability\<close>

text \<open>
  The binary search returns the point that parts the array, provided the answers of the
  comparison function along the array never go from negative back to non-negative.
\<close>

lemma binarySearch_partition:
  "(\<And>i j. i \<le> j \<Longrightarrow> j < length a \<Longrightarrow> cmp p (a ! i) < 0 \<Longrightarrow> cmp p (a ! j) < 0) \<Longrightarrow>
    left \<le> right \<Longrightarrow> right \<le> length a \<Longrightarrow>
    (\<forall>i<left. \<not> cmp p (a ! i) < 0) \<Longrightarrow>
    (\<forall>i. right \<le> i \<and> i < length a \<longrightarrow> cmp p (a ! i) < 0) \<Longrightarrow>
    binarySearch cmp p a left right \<le> length a \<and>
    (\<forall>i<binarySearch cmp p a left right. \<not> cmp p (a ! i) < 0) \<and>
    (\<forall>i. binarySearch cmp p a left right \<le> i \<and> i < length a \<longrightarrow> cmp p (a ! i) < 0)"
proof (induction cmp p a left right rule: binarySearch.induct)
  case (1 comparefn pivot a left right)
  note mono = "1.prems"(1)
  show ?case
  proof (cases "left < right")
    case False
    with "1.prems" have "left = right" by simp
    with "1.prems" show ?thesis by (subst (1 2 3) binarySearch.simps) simp
  next
    case True
    define mid where "mid = left + (right - left) div 2"
    have m: "left \<le> mid" "mid < right" using True by (auto simp: mid_def)
    have unf: "binarySearch comparefn pivot a left right =
       (if comparefn pivot (a ! mid) < 0 then binarySearch comparefn pivot a left mid
        else binarySearch comparefn pivot a (mid + 1) right)"
      using True by (subst binarySearch.simps) (simp add: mid_def Let_def)
    show ?thesis
    proof (cases "comparefn pivot (a ! mid) < 0")
      case neg: True
      have up: "\<forall>i. mid \<le> i \<and> i < length a \<longrightarrow> comparefn pivot (a ! i) < 0"
        using neg mono by blast
      have "binarySearch comparefn pivot a left mid \<le> length a \<and>
        (\<forall>i<binarySearch comparefn pivot a left mid. \<not> comparefn pivot (a ! i) < 0) \<and>
        (\<forall>i. binarySearch comparefn pivot a left mid \<le> i \<and> i < length a \<longrightarrow>
             comparefn pivot (a ! i) < 0)"
        using "1.IH"(1) [OF True mid_def neg mono] m "1.prems"(3,4) up by simp
      with neg unf show ?thesis by simp
    next
      case nonneg: False
      have low: "\<forall>i<mid + 1. \<not> comparefn pivot (a ! i) < 0"
      proof (intro allI impI)
        fix i assume "i < mid + 1"
        then have "i \<le> mid" by simp
        moreover have "mid < length a" using m "1.prems"(3) by simp
        ultimately show "\<not> comparefn pivot (a ! i) < 0" using mono nonneg by blast
      qed
      have "binarySearch comparefn pivot a (mid + 1) right \<le> length a \<and>
        (\<forall>i<binarySearch comparefn pivot a (mid + 1) right. \<not> comparefn pivot (a ! i) < 0) \<and>
        (\<forall>i. binarySearch comparefn pivot a (mid + 1) right \<le> i \<and> i < length a \<longrightarrow>
             comparefn pivot (a ! i) < 0)"
        using "1.IH"(2) [OF True mid_def nonneg mono] m "1.prems"(3,5) low by simp
      with nonneg unf show ?thesis by simp
    qed
  qed
qed


text \<open>Where the binary search over the whole sorted part puts the pivot.\<close>

lemma binarySearch_split:
  fixes f :: "'a \<Rightarrow> int"
  assumes "\<And>x y. cmp p x < 0 \<Longrightarrow> f x \<le> f y \<Longrightarrow> cmp p y < 0"
    and "sorted (map f a)"
  shows "binarySearch cmp p a 0 (length a) \<le> length a \<and>
         (\<forall>x\<in>set (take (binarySearch cmp p a 0 (length a)) a). \<not> cmp p x < 0) \<and>
         (\<forall>x\<in>set (drop (binarySearch cmp p a 0 (length a)) a). cmp p x < 0)"
proof -
  let ?n = "binarySearch cmp p a 0 (length a)"
  have mono: "\<And>i j. i \<le> j \<Longrightarrow> j < length a \<Longrightarrow> cmp p (a ! i) < 0 \<Longrightarrow> cmp p (a ! j) < 0"
  proof -
    fix i j assume ij: "i \<le> j" "j < length a" and c: "cmp p (a ! i) < 0"
    from assms(2) ij have "f (a ! i) \<le> f (a ! j)"
      by (simp add: sorted_iff_nth_mono)
    with c show "cmp p (a ! j) < 0" by (rule assms(1))
  qed
  have part: "?n \<le> length a \<and> (\<forall>i<?n. \<not> cmp p (a ! i) < 0) \<and>
      (\<forall>i. ?n \<le> i \<and> i < length a \<longrightarrow> cmp p (a ! i) < 0)"
    using mono
    by (intro binarySearch_partition [where cmp=cmp and p=p and a=a and left=0 and right="length a"])
       simp_all
  then have "\<forall>x\<in>set (take ?n a). \<not> cmp p x < 0"
    by (auto simp: in_set_conv_nth)
  moreover from part have "\<forall>x\<in>set (drop ?n a). cmp p x < 0"
    by (auto simp: in_set_conv_nth)
  ultimately show ?thesis using part by blast
qed

lemma insert_sorted:
  fixes f :: "'a \<Rightarrow> int"
  assumes S1: "\<And>x y. cmp x y < 0 \<Longrightarrow> f x \<le> f y"
    and S2: "\<And>x y. \<not> cmp x y < 0 \<Longrightarrow> f y \<le> f x"
    and M: "\<And>p x y. cmp p x < 0 \<Longrightarrow> f x \<le> f y \<Longrightarrow> cmp p y < 0"
    and "sorted (map f a)"
  shows "sorted (map f (take (binarySearch cmp p a 0 (length a)) a @
                        p # drop (binarySearch cmp p a 0 (length a)) a))"
proof -
  let ?n = "binarySearch cmp p a 0 (length a)"
  from binarySearch_split [of cmp p f a] M assms(4)
  have lo: "\<forall>x\<in>set (take ?n a). \<not> cmp p x < 0" and hi: "\<forall>x\<in>set (drop ?n a). cmp p x < 0"
    by blast+
  from lo S2 have lo': "\<forall>x\<in>set (take ?n a). f x \<le> f p" by blast
  from hi S1 have hi': "\<forall>x\<in>set (drop ?n a). f p \<le> f x" by blast
  from assms(4) have "sorted (map f (take ?n a))" "sorted (map f (drop ?n a))"
    by (simp_all add: sorted_wrt_take sorted_wrt_drop sorted_map)
  with lo' hi' show ?thesis
    by (fastforce simp: sorted_append)
qed

lemma binaryInsertionSort_sorted:
  fixes f :: "'a \<Rightarrow> int"
  assumes S1: "\<And>x y. cmp x y < 0 \<Longrightarrow> f x \<le> f y"
    and S2: "\<And>x y. \<not> cmp x y < 0 \<Longrightarrow> f y \<le> f x"
    and M: "\<And>p x y. cmp p x < 0 \<Longrightarrow> f x \<le> f y \<Longrightarrow> cmp p y < 0"
  shows "sorted (map f pre) \<Longrightarrow> sorted (map f (binaryInsertionSort cmp pre rest))"
proof (induction rest arbitrary: pre)
  case Nil
  then show ?case by simp
next
  case (Cons p rest)
  from insert_sorted [of cmp f pre p, OF S1 S2 M Cons.prems]
  show ?case by (simp add: Let_def Cons.IH)
qed

lemma extendRun_le: "extendRun cmp d prev rest \<le> length rest"
  by (induction rest arbitrary: prev) (auto simp: Let_def)

lemma extendRun_ascending:
  fixes f :: "'a \<Rightarrow> int"
  assumes S2: "\<And>x y. \<not> cmp x y < 0 \<Longrightarrow> f y \<le> f x"
  shows "sorted (map f (prev # take (extendRun cmp False prev rest) rest))"
proof (induction rest arbitrary: prev)
  case Nil
  show ?case by simp
next
  case (Cons c cs)
  show ?case
  proof (cases "cmp c prev < 0")
    case True
    then show ?thesis by simp
  next
    case False
    with S2 have le: "f prev \<le> f c" by blast
    from Cons [of c] have "sorted (map f (c # take (extendRun cmp False c cs) cs))" .
    with le False show ?thesis by (auto simp: Let_def intro: order_trans [of "f prev" "f c"])
  qed
qed

lemma extendRun_descending:
  fixes f :: "'a \<Rightarrow> int"
  assumes S1: "\<And>x y. cmp x y < 0 \<Longrightarrow> f x \<le> f y"
  shows "sorted_wrt (\<lambda>x y. f y \<le> f x) (prev # take (extendRun cmp True prev rest) rest)"
proof (induction rest arbitrary: prev)
  case Nil
  show ?case by simp
next
  case (Cons c cs)
  show ?case
  proof (cases "cmp c prev < 0")
    case False
    then show ?thesis by simp
  next
    case True
    with S1 have le: "f c \<le> f prev" by blast
    from Cons [of c] have "sorted_wrt (\<lambda>x y. f y \<le> f x) (c # take (extendRun cmp True c cs) cs)" .
    with le True show ?thesis by (auto simp: Let_def intro: order_trans [of _ "f c" "f prev"])
  qed
qed

lemma countAndMakeRun_sorted:
  fixes f :: "'a \<Rightarrow> int"
  assumes S1: "\<And>x y. cmp x y < 0 \<Longrightarrow> f x \<le> f y"
    and S2: "\<And>x y. \<not> cmp x y < 0 \<Longrightarrow> f y \<le> f x"
    and "countAndMakeRun cmp a = (a', n)"
  shows "sorted (map f (take n a'))"
proof (cases a)
  case Nil
  with assms(3) show ?thesis by simp
next
  case (Cons h t)
  show ?thesis
  proof (cases t)
    case Nil
    with Cons assms(3) show ?thesis by auto
  next
    case (Cons l rest)
    note 1 = \<open>a = h # t\<close> Cons
    let ?d = "cmp l h < 0"
    let ?m = "extendRun cmp ?d l rest"
    have n: "n = 2 + ?m" using 1 assms(3) by (simp add: Let_def)
    have le: "?m \<le> length rest" by (rule extendRun_le)
    have tk: "take n a = h # l # take ?m rest" using 1 n by simp
    show ?thesis
    proof (cases ?d)
      case False
      then have a': "a' = a" using 1 assms(3) by (simp add: Let_def)
      from False S2 have "f h \<le> f l" by blast
      moreover have "sorted (map f (l # take (extendRun cmp False l rest) rest))"
        by (rule extendRun_ascending [OF S2])
      ultimately show ?thesis using a' tk False by (auto intro: order_trans)
    next
      case True
      then have a': "a' = rev (take n a) @ drop n a" using 1 assms(3) n by (simp add: Let_def)
      have len: "length (rev (take n a)) = n" using 1 n le by simp
      have t: "take n a' = rev (take n a)" unfolding a' using len by simp
      from True S1 have hl: "f l \<le> f h" by blast
      have "sorted_wrt (\<lambda>x y. f y \<le> f x) (l # take (extendRun cmp True l rest) rest)"
        by (rule extendRun_descending [OF S1])
      with hl True have "sorted_wrt (\<lambda>x y. f y \<le> f x) (h # l # take ?m rest)"
        by (auto intro: order_trans [of _ "f l" "f h"])
      then have "sorted_wrt (\<lambda>x y. f x \<le> f y) (rev (h # l # take ?m rest))"
        by (simp only: sorted_wrt_rev)
      then show ?thesis using t tk by (simp only: sorted_map)
    qed
  qed
qed

lemma sort_array_sorted:
  fixes f :: "'a \<Rightarrow> int"
  assumes S1: "\<And>x y. cmp x y < 0 \<Longrightarrow> f x \<le> f y"
    and S2: "\<And>x y. \<not> cmp x y < 0 \<Longrightarrow> f y \<le> f x"
    and M: "\<And>p x y. cmp p x < 0 \<Longrightarrow> f x \<le> f y \<Longrightarrow> cmp p y < 0"
  shows "sorted (map f (sort_array cmp a))"
proof (cases "length a < 2")
  case True
  then have "length (map f a) \<le> 1" by simp
  then have "sorted (map f a)" by (rule sorted01)
  with True show ?thesis by (simp add: sort_array_def)
next
  case False
  obtain a' n where r: "countAndMakeRun cmp a = (a', n)" by (cases "countAndMakeRun cmp a")
  from countAndMakeRun_sorted [OF S1 S2 r] have "sorted (map f (take n a'))" .
  with S1 S2 M have "sorted (map f (binaryInsertionSort cmp (take n a') (drop n a')))"
    by (intro binaryInsertionSort_sorted [where cmp=cmp and f=f]) blast+
  with False r show ?thesis by (simp add: sort_array_def)
qed


text \<open>
  Stability, for a comparison function that is negative exactly when the first key is
  smaller: the elements of each key keep their order.
\<close>

lemma insert_stable:
  fixes f :: "'a \<Rightarrow> int"
  assumes T: "\<And>x y. cmp x y < 0 \<longleftrightarrow> f x < f y"
    and "sorted (map f a)"
  shows "filter (\<lambda>x. f x = k) (take (binarySearch cmp p a 0 (length a)) a @
                                 p # drop (binarySearch cmp p a 0 (length a)) a) =
         filter (\<lambda>x. f x = k) a @ (if f p = k then [p] else [])"
proof -
  define n where "n = binarySearch cmp p a 0 (length a)"
  have M: "\<And>x y. cmp p x < 0 \<Longrightarrow> f x \<le> f y \<Longrightarrow> cmp p y < 0"
    unfolding T by linarith
  have "binarySearch cmp p a 0 (length a) \<le> length a \<and>
         (\<forall>x\<in>set (take (binarySearch cmp p a 0 (length a)) a). \<not> cmp p x < 0) \<and>
         (\<forall>x\<in>set (drop (binarySearch cmp p a 0 (length a)) a). cmp p x < 0)"
  proof (rule binarySearch_split [where f = f])
    show "\<And>x y. cmp p x < 0 \<Longrightarrow> f x \<le> f y \<Longrightarrow> cmp p y < 0" by (rule M)
    show "sorted (map f a)" by fact
  qed
  then have "\<forall>x\<in>set (drop n a). cmp p x < 0" unfolding n_def by blast
  then have hi: "\<forall>x\<in>set (drop n a). f p < f x" unfolding T .
  have a: "filter (\<lambda>x. f x = k) a =
           filter (\<lambda>x. f x = k) (take n a) @ filter (\<lambda>x. f x = k) (drop n a)"
    by (metis append_take_drop_id filter_append)
  have "filter (\<lambda>x. f x = k) (take n a @ p # drop n a) =
        filter (\<lambda>x. f x = k) a @ (if f p = k then [p] else [])"
  proof (cases "f p = k")
    case True
    with hi have "\<forall>x\<in>set (drop n a). f x \<noteq> k" by auto
    then have "filter (\<lambda>x. f x = k) (drop n a) = []"
      by (simp add: filter_empty_conv)
    with True show ?thesis unfolding a by simp
  next
    case False
    then show ?thesis unfolding a by simp
  qed
  then show ?thesis unfolding n_def .
qed

lemma binaryInsertionSort_stable:
  fixes f :: "'a \<Rightarrow> int"
  assumes T: "\<And>x y. cmp x y < 0 \<longleftrightarrow> f x < f y"
  shows "sorted (map f pre) \<Longrightarrow>
         filter (\<lambda>x. f x = k) (binaryInsertionSort cmp pre rest) =
         filter (\<lambda>x. f x = k) (pre @ rest)"
proof (induction rest arbitrary: pre)
  case Nil
  then show ?case by simp
next
  case (Cons p rest)
  let ?pre = "take (binarySearch cmp p pre 0 (length pre)) pre @
              p # drop (binarySearch cmp p pre 0 (length pre)) pre"
  have S1: "\<And>x y. cmp x y < 0 \<Longrightarrow> f x \<le> f y"
    and S2: "\<And>x y. \<not> cmp x y < 0 \<Longrightarrow> f y \<le> f x"
    and M: "\<And>p x y. cmp p x < 0 \<Longrightarrow> f x \<le> f y \<Longrightarrow> cmp p y < 0"
    by (simp_all add: T)
  have "sorted (map f ?pre)"
  proof (rule insert_sorted [where f = f])
    show "\<And>x y. cmp x y < 0 \<Longrightarrow> f x \<le> f y" by (rule S1)
    show "\<And>x y. \<not> cmp x y < 0 \<Longrightarrow> f y \<le> f x" by (rule S2)
    show "\<And>p x y. cmp p x < 0 \<Longrightarrow> f x \<le> f y \<Longrightarrow> cmp p y < 0" by (rule M)
    show "sorted (map f pre)" by fact
  qed
  then have "filter (\<lambda>x. f x = k) (binaryInsertionSort cmp ?pre rest) =
             filter (\<lambda>x. f x = k) (?pre @ rest)"
    by (rule Cons.IH)
  also have "\<dots> = filter (\<lambda>x. f x = k) ?pre @ filter (\<lambda>x. f x = k) rest"
    by (simp only: filter_append)
  also have "filter (\<lambda>x. f x = k) ?pre =
             filter (\<lambda>x. f x = k) pre @ (if f p = k then [p] else [])"
    using T Cons.prems by (rule insert_stable)
  finally show ?case by (simp add: Let_def)
qed

lemma extendRun_strictly_descending:
  fixes f :: "'a \<Rightarrow> int"
  assumes T: "\<And>x y. cmp x y < 0 \<longleftrightarrow> f x < f y"
  shows "sorted_wrt (\<lambda>x y. f y < f x) (prev # take (extendRun cmp True prev rest) rest)"
proof (induction rest arbitrary: prev)
  case Nil
  show ?case by simp
next
  case (Cons c cs)
  show ?case
  proof (cases "cmp c prev < 0")
    case False
    then show ?thesis by simp
  next
    case True
    then have le: "f c < f prev" by (simp add: T)
    from Cons [of c] have "sorted_wrt (\<lambda>x y. f y < f x) (c # take (extendRun cmp True c cs) cs)" .
    with le True show ?thesis by (auto simp: Let_def intro: less_trans [of _ "f c" "f prev"])
  qed
qed

lemma filter_rev_strictly_descending:
  fixes f :: "'a \<Rightarrow> int"
  shows "sorted_wrt (\<lambda>x y. f y < f x) xs \<Longrightarrow>
         filter (\<lambda>x. f x = k) (rev xs) = filter (\<lambda>x. f x = k) xs"
proof (induction xs)
  case Nil
  show ?case by simp
next
  case (Cons x xs)
  then have IH: "filter (\<lambda>x. f x = k) (rev xs) = filter (\<lambda>x. f x = k) xs" by simp
  show ?case
  proof (cases "f x = k")
    case True
    with Cons.prems have "filter (\<lambda>x. f x = k) xs = []"
      by (auto simp: filter_empty_conv)
    with True IH show ?thesis by simp
  next
    case False
    with IH show ?thesis by simp
  qed
qed

lemma countAndMakeRun_stable:
  fixes f :: "'a \<Rightarrow> int"
  assumes T: "\<And>x y. cmp x y < 0 \<longleftrightarrow> f x < f y"
    and "countAndMakeRun cmp a = (a', n)"
  shows "filter (\<lambda>x. f x = k) (take n a') = filter (\<lambda>x. f x = k) (take n a) \<and>
         drop n a' = drop n a"
proof (cases a)
  case Nil
  with assms(2) show ?thesis by simp
next
  case (Cons h t)
  show ?thesis
  proof (cases t)
    case Nil
    with Cons assms(2) show ?thesis by auto
  next
    case (Cons l rest)
    note 1 = \<open>a = h # t\<close> Cons
    let ?d = "cmp l h < 0"
    let ?m = "extendRun cmp ?d l rest"
    have n: "n = 2 + ?m" using 1 assms(2) by (simp add: Let_def)
    have le: "?m \<le> length rest" by (rule extendRun_le)
    have tk: "take n a = h # l # take ?m rest" using 1 n by simp
    show ?thesis
    proof (cases ?d)
      case False
      then have "a' = a" using 1 assms(2) by (simp add: Let_def)
      then show ?thesis by simp
    next
      case True
      then have a': "a' = rev (take n a) @ drop n a" using 1 assms(2) n by (simp add: Let_def)
      have len: "length (rev (take n a)) = n" using 1 n le by simp
      have t: "take n a' = rev (take n a)" and d: "drop n a' = drop n a"
        unfolding a' using len by simp_all
      from True have hl: "f l < f h" by (simp add: T)
      have "sorted_wrt (\<lambda>x y. f y < f x) (l # take (extendRun cmp True l rest) rest)"
        by (rule extendRun_strictly_descending [OF T])
      with hl True have "sorted_wrt (\<lambda>x y. f y < f x) (h # l # take ?m rest)"
        by (auto intro: less_trans [of _ "f l" "f h"])
      then have "filter (\<lambda>x. f x = k) (rev (take n a)) = filter (\<lambda>x. f x = k) (take n a)"
        unfolding tk by (rule filter_rev_strictly_descending)
      with t d show ?thesis by simp
    qed
  qed
qed

lemma sort_array_stable:
  fixes f :: "'a \<Rightarrow> int"
  assumes T: "\<And>x y. cmp x y < 0 \<longleftrightarrow> f x < f y"
  shows "filter (\<lambda>x. f x = k) (sort_array cmp a) = filter (\<lambda>x. f x = k) a"
proof (cases "length a < 2")
  case True
  then show ?thesis by (simp add: sort_array_def)
next
  case False
  obtain a' n where r: "countAndMakeRun cmp a = (a', n)" by (cases "countAndMakeRun cmp a")
  have S1: "\<And>x y. cmp x y < 0 \<Longrightarrow> f x \<le> f y"
    and S2: "\<And>x y. \<not> cmp x y < 0 \<Longrightarrow> f y \<le> f x"
    and M: "\<And>p x y. cmp p x < 0 \<Longrightarrow> f x \<le> f y \<Longrightarrow> cmp p y < 0"
    by (simp_all add: T)
  have "sorted (map f (take n a'))"
  proof (rule countAndMakeRun_sorted [where f = f])
    show "\<And>x y. cmp x y < 0 \<Longrightarrow> f x \<le> f y" by (rule S1)
    show "\<And>x y. \<not> cmp x y < 0 \<Longrightarrow> f y \<le> f x" by (rule S2)
    show "countAndMakeRun cmp a = (a', n)" by fact
  qed
  then have "filter (\<lambda>x. f x = k) (binaryInsertionSort cmp (take n a') (drop n a')) =
             filter (\<lambda>x. f x = k) (take n a' @ drop n a')"
    using T by (rule binaryInsertionSort_stable [rotated])
  also have "\<dots> = filter (\<lambda>x. f x = k) (take n a) @ filter (\<lambda>x. f x = k) (drop n a)"
    using countAndMakeRun_stable [of cmp f a a' n k, OF T r] by simp
  also have "\<dots> = filter (\<lambda>x. f x = k) a"
    by (simp flip: filter_append)
  finally show ?thesis using False r by (simp add: sort_array_def)
qed


section \<open>Order of the subscriber lists\<close>

lemma add_sorted: "sorted (map index (callbacks (add c k s)))"
proof -
  have "sorted (map index (sort_array compare_add (callbacks s @ [\<lparr> cb = c, index = k \<rparr>])))"
  proof (rule sort_array_sorted [where f = index])
    show "\<And>x y. compare_add x y < 0 \<Longrightarrow> index x \<le> index y"
      by (simp add: compare_add_def split: if_splits)
    show "\<And>x y. \<not> compare_add x y < 0 \<Longrightarrow> index y \<le> index x"
      by (simp add: compare_add_def split: if_splits)
    show "\<And>p x y. compare_add p x < 0 \<Longrightarrow> index x \<le> index y \<Longrightarrow> compare_add p y < 0"
      by (simp add: compare_add_def split: if_splits)
  qed
  then show ?thesis by (simp add: add_def)
qed

text \<open>Every RAFCollection built by \<open>add\<close> holds its callbacks in non-decreasing index order.\<close>

lemma add_all_sorted:
  "sorted (map index (callbacks s)) \<Longrightarrow> sorted (map index (callbacks (add_all regs s)))"
  by (induction regs s rule: add_all.induct) (simp_all add: add_sorted)

lemma compare_onRaf_negative: "compare_onRaf x y < 0 \<longleftrightarrow> index x < index y"
  by (simp add: compare_onRaf_def)

lemma subs_onRaf:
  "subs_current s < length (arrays s) \<Longrightarrow>
   subs (snd (onRaf c k s)) =
     sort_array compare_onRaf (subs s @ [\<lparr> cb = c, index = k, ref = next_ref s \<rparr>])"
  by (simp add: onRaf_def subs_def array_at_def Let_def)

lemma onRaf_valid:
  "subs_current s < length (arrays s) \<Longrightarrow>
   subs_current (snd (onRaf c k s)) < length (arrays (snd (onRaf c k s)))"
  by (simp add: onRaf_def Let_def)

lemma onRaf_sorted:
  assumes "subs_current s < length (arrays s)"
  shows "sorted (map index (subs (snd (onRaf c k s))))"
proof -
  have "sorted (map index
          (sort_array compare_onRaf (subs s @ [\<lparr> cb = c, index = k, ref = next_ref s \<rparr>])))"
  proof (rule sort_array_sorted [where f = index])
    show "\<And>x y. compare_onRaf x y < 0 \<Longrightarrow> index x \<le> index y"
      by (simp add: compare_onRaf_def)
    show "\<And>x y. \<not> compare_onRaf x y < 0 \<Longrightarrow> index y \<le> index x"
      by (simp add: compare_onRaf_def)
    show "\<And>p x y. compare_onRaf p x < 0 \<Longrightarrow> index x \<le> index y \<Longrightarrow> compare_onRaf p y < 0"
      by (simp add: compare_onRaf_def)
  qed
  with assms show ?thesis by (simp add: subs_onRaf)
qed

lemma onRaf_stable:
  assumes "subs_current s < length (arrays s)"
  shows "filter (\<lambda>e. index e = j) (subs (snd (onRaf c k s))) =
         filter (\<lambda>e. index e = j) (subs s) @
           (if k = j then [\<lparr> cb = c, index = k, ref = next_ref s \<rparr>] else [])"
proof -
  have "filter (\<lambda>e. index e = j)
          (sort_array compare_onRaf (subs s @ [\<lparr> cb = c, index = k, ref = next_ref s \<rparr>])) =
        filter (\<lambda>e. index e = j) (subs s @ [\<lparr> cb = c, index = k, ref = next_ref s \<rparr>])"
    by (rule sort_array_stable [where f = index]) (rule compare_onRaf_negative)
  with assms show ?thesis by (simp add: subs_onRaf)
qed

lemma onRaf_all_order:
  "subs_current s < length (arrays s) \<Longrightarrow> sorted (map index (subs s)) \<Longrightarrow>
   subs_current (onRaf_all regs s) < length (arrays (onRaf_all regs s)) \<and>
   sorted (map index (subs (onRaf_all regs s))) \<and>
   map cb (filter (\<lambda>e. index e = j) (subs (onRaf_all regs s))) =
     map cb (filter (\<lambda>e. index e = j) (subs s)) @ map fst (filter (\<lambda>r. snd r = j) regs)"
proof (induction regs s rule: onRaf_all.induct)
  case (1 s)
  then show ?case by simp
next
  case (2 c k regs s)
  let ?s = "snd (onRaf c k s)"
  have v: "subs_current ?s < length (arrays ?s)" using "2.prems"(1) by (rule onRaf_valid)
  have so: "sorted (map index (subs ?s))" using "2.prems"(1) by (rule onRaf_sorted)
  from "2.IH" [OF v so] onRaf_stable [OF "2.prems"(1), of j c k]
  show ?case by auto
qed

text \<open>
  The dispatcher of RuntimeProvider after any sequence of \<open>onRaf\<close> calls: the array is in
  non-decreasing index order, the entries of each index are in registration order, and a
  tick whose callbacks return and leave the array alone calls them in the order of the
  array.
\<close>

lemma onRaf_registration_order:
  "sorted (map index (subs (onRaf_all regs (Runtime_init u)))) \<and>
   (\<forall>j. map cb (filter (\<lambda>e. index e = j) (subs (onRaf_all regs (Runtime_init u)))) =
        map fst (filter (\<lambda>r. snd r = j) regs)) \<and>
   (\<exists>s'. loop idle t (onRaf_all regs (Runtime_init u)) =
        Some (map cb (subs (onRaf_all regs (Runtime_init u))), Inr s'))"
proof -
  let ?S = "onRaf_all regs (Runtime_init u)"
  have v: "subs_current (Runtime_init u) < length (arrays (Runtime_init u))"
    by (simp add: Runtime_init_def)
  have e: "subs (Runtime_init u) = []"
    by (simp add: Runtime_init_def subs_def array_at_def)
  then have so: "sorted (map index (subs (Runtime_init u)))" by simp
  have ord: "\<And>j. sorted (map index (subs ?S)) \<and>
      map cb (filter (\<lambda>e. index e = j) (subs ?S)) = map fst (filter (\<lambda>r. snd r = j) regs)"
    using onRaf_all_order [OF v so, of regs] e by simp
  let ?S1 = "?S\<lparr> raf_requested := True \<rparr>"
  have "\<exists>s'. loop_from idle t (subs_current ?S1) 0 [] ?S1 =
          Some ([] @ map cb (drop 0 (subs ?S)), Inr s')"
  proof (rule loop_from_calls_all)
    show "\<And>c s'. array_at s' (subs_current ?S1) = subs ?S \<Longrightarrow>
            \<exists>s''. idle c t s' = Inr s'' \<and> array_at s'' (subs_current ?S1) = subs ?S"
      by (simp add: idle_def)
    show "array_at ?S1 (subs_current ?S1) = subs ?S"
      by (simp add: subs_def array_at_def)
  qed
  then have "\<exists>s'. loop idle t ?S = Some (map cb (subs ?S), Inr s')"
    by (simp add: loop_def Let_def)
  with ord show ?thesis by blast
qed

text \<open>
  A RAFCollection after any sequence of \<open>add\<close> calls, under the sort as modelled (on V8
  that is a list of fewer than 64 callbacks): the list is in non-decreasing index order,
  and a tick whose callbacks leave the list alone calls them in the order of the list.
\<close>

lemma add_priority_order:
  "sorted (map index (callbacks (add_all regs (RAFCollection_new u)))) \<and>
   (\<exists>s'. onRAF idle t (add_all regs (RAFCollection_new u)) =
        Some (map cb (callbacks (add_all regs (RAFCollection_new u))), s'))"
proof -
  let ?S = "add_all regs (RAFCollection_new u)"
  have "sorted (map index (callbacks ?S))"
    by (rule add_all_sorted) (simp add: RAFCollection_new_def)
  moreover have "\<exists>s'. onRAF_from idle t 0 [] ?S =
      Some ([] @ map cb (drop 0 (callbacks ?S)), s') \<and> callbacks s' = callbacks ?S"
    by (rule onRAF_from_calls_all) (simp add: idle_def)
  ultimately show ?thesis by (auto simp: onRAF_def)
qed

section \<open>The claims on frame dispatch\<close>

text \<open>
  C1. The claim asks for registration order among callbacks of equal priority. The
  comparison function of \<open>RAFCollection.add\<close> never returns 0: for two items of equal
  index it answers \<open>-1\<close> whichever comes first, so it is not consistent and the order of
  such items is left to the engine. On V8 any two callbacks added to a new collection
  with the same index are stored, and called by the next tick, in the reverse of their
  registration order; so are callbacks 1 and 2 added with index 0. \<open>onRaf\<close> of
  RuntimeProvider stores two such callbacks in registration order.
\<close>

theorem add_equal_index_order:
  "callbacks (add c2 k (add c1 k (RAFCollection_new u))) =
     [\<lparr> cb = c2, index = k \<rparr>, \<lparr> cb = c1, index = k \<rparr>] \<and>
   onRAF idle t (add c2 k (add c1 k (RAFCollection_new u))) =
     Some ([c2, c1], add c2 k (add c1 k (RAFCollection_new u))) \<and>
   onRAF idle t (add 2 0 (add 1 0 (RAFCollection_new ()))) =
     Some ([2, 1], add 2 0 (add 1 0 (RAFCollection_new ()))) \<and>
   map cb (subs (snd (onRaf c2 k (snd (onRaf c1 k (Runtime_init u)))))) = [c1, c2]"
  by (simp add: onRAF_def onRAF_from.simps idle_def add_def RAFCollection_new_def
        onRaf_def Runtime_init_def array_at_def subs_def sort_eval)

text \<open>
  C2. The claim asks that the callbacks after a throwing one still run. The loop of
  RuntimeProvider has no \<open>try\<close>: with callbacks 1 and 2 subscribed in this order and
  callback 1 throwing, the tick calls callback 1 only and the exception leaves \<open>loop\<close>;
  the next frame has been requested before. \<open>_onRAF\<close> of RAFCollection, which catches,
  calls both.
\<close>

theorem loop_throw_skips_rest:
  "map cb (subs (snd (onRaf 2 2 (snd (onRaf 1 2 (Runtime_init ())))))) = [1, 2] \<and>
   loop first_throws t (snd (onRaf 2 2 (snd (onRaf 1 2 (Runtime_init ()))))) =
     Some ([1], Inl (Error ''boom'',
                     (snd (onRaf 2 2 (snd (onRaf 1 2 (Runtime_init ())))))\<lparr> raf_requested := True \<rparr>)) \<and>
   map_option fst (onRAF first_throws t (add 2 1 (add 1 0 (RAFCollection_new ())))) = Some [1, 2]"
  by (simp add: loop_def loop_from.simps first_throws_def onRaf_def Runtime_init_def array_at_def
        subs_def onRAF_def onRAF_from.simps add_def RAFCollection_new_def sort_eval)

text \<open>
  C3. The claim asks that a callback unsubscribed during a tick leaves the list of the
  running tick as it is. \<open>_onRAF\<close> reads \<open>this.callbacks\<close> at every step and \<open>remove\<close>
  replaces it by a shorter array: with callbacks 1, 2, 3 registered at indices 0, 1, 2
  and callback 1 removing itself, the tick calls 1 and 3 and skips 2. The loop of
  RuntimeProvider, walking the array it started on, calls 1, 2 and 3 when callback 1
  calls its unsubscribe closure.
\<close>

theorem onRAF_remove_skips_next:
  "map cb (callbacks (add 3 2 (add 2 1 (add 1 0 (RAFCollection_new ()))))) = [1, 2, 3] \<and>
   onRAF removes_itself t (add 3 2 (add 2 1 (add 1 0 (RAFCollection_new ())))) =
     Some ([1, 3], remove 1 (add 3 2 (add 2 1 (add 1 0 (RAFCollection_new ()))))) \<and>
   map_option fst (loop unsubscribes_itself t (snd (onRaf 3 2 (snd (onRaf 2 1 (snd (onRaf 1 0 (Runtime_init ())))))))) =
     Some [1, 2, 3]"
  by (simp add: onRAF_def onRAF_from.simps removes_itself_def remove_def add_def
        RAFCollection_new_def loop_def loop_from.simps unsubscribes_itself_def unsubscribe_def
        onRaf_def Runtime_init_def array_at_def sort_eval)

text \<open>
  C6. \<open>RAFCollection.remove\<close> with a callback that was removed before, or that is not in
  the list, returns the collection as it is; the unsubscribe closure of RuntimeProvider
  called a second time, or for an entry that is not in the array, leaves the contents of
  \<open>subs.current\<close> as they are. After either call the callback or entry is not in the
  list. Neither function has a branch that throws.
\<close>

theorem unsubscribe_idempotent:
  "remove c (remove c s) = remove c s \<and>
   (c \<notin> cb ` set (callbacks s) \<longrightarrow> remove c s = s) \<and>
   c \<notin> cb ` set (callbacks (remove c s)) \<and>
   subs (unsubscribe r (unsubscribe r q)) = subs (unsubscribe r q) \<and>
   (r \<notin> ref ` set (subs q) \<longrightarrow> subs (unsubscribe r q) = subs q) \<and>
   r \<notin> ref ` set (subs (unsubscribe r q))"
proof (intro conjI impI)
  show "remove c (remove c s) = remove c s" by (simp add: remove_def)
  show "c \<notin> cb ` set (callbacks (remove c s))" by (auto simp: remove_def)
  show "subs (unsubscribe r (unsubscribe r q)) = subs (unsubscribe r q)"
    by (simp add: subs_unsubscribe)
  show "r \<notin> ref ` set (subs (unsubscribe r q))" by (auto simp: subs_unsubscribe)
next
  assume "c \<notin> cb ` set (callbacks s)"
  then have "filter (\<lambda>item. cb item \<noteq> c) (callbacks s) = callbacks s"
    by (auto simp: filter_id_conv)
  then show "remove c s = s" by (simp add: remove_def)
next
  assume "r \<notin> ref ` set (subs q)"
  then have "filter (\<lambda>x. ref x \<noteq> r) (subs q) = subs q"
    by (auto simp: filter_id_conv)
  then show "subs (unsubscribe r q) = subs q" by (simp add: subs_unsubscribe)
qed

theorem unsubscribe_idempotent_witness:
  "5 \<notin> cb ` set (callbacks (add 2 1 (add 1 0 (RAFCollection_new ())))) \<and>
   7 \<notin> ref ` set (subs (snd (onRaf 2 1 (snd (onRaf 1 0 (Runtime_init ())))))) \<and>
   remove 5 (add 2 1 (add 1 0 (RAFCollection_new ()))) = add 2 1 (add 1 0 (RAFCollection_new ())) \<and>
   remove 1 (remove 1 (add 2 1 (add 1 0 (RAFCollection_new ())))) =
     remove 1 (add 2 1 (add 1 0 (RAFCollection_new ()))) \<and>
   map cb (callbacks (remove 1 (add 2 1 (add 1 0 (RAFCollection_new ()))))) = [2] \<and>
   subs (unsubscribe 7 (snd (onRaf 2 1 (snd (onRaf 1 0 (Runtime_init ())))))) =
     subs (snd (onRaf 2 1 (snd (onRaf 1 0 (Runtime_init ()))))) \<and>
   subs (unsubscribe 0 (unsubscribe 0 (snd (onRaf 2 1 (snd (onRaf 1 0 (Runtime_init ()))))))) =
     subs (unsubscribe 0 (snd (onRaf 2 1 (snd (onRaf 1 0 (Runtime_init ())))))) \<and>
   map cb (subs (unsubscribe 0 (snd (onRaf 2 1 (snd (onRaf 1 0 (Runtime_init ()))))))) = [2]"
proof -
  let ?S = "add 2 1 (add 1 0 (RAFCollection_new ()))"
  let ?Q = "snd (onRaf 2 1 (snd (onRaf 1 0 (Runtime_init ()))))"
  have a: "5 \<notin> cb ` set (callbacks ?S)"
    by (simp add: add_def RAFCollection_new_def sort_eval)
  have b: "7 \<notin> ref ` set (subs ?Q)"
    by (simp add: subs_def onRaf_def Runtime_init_def array_at_def sort_eval)
  have 1: "remove 5 ?S = ?S"
    by (rule unsubscribe_idempotent [of 5 ?S 7 ?Q, THEN conjunct2, THEN conjunct1, THEN mp, OF a])
  have 2: "subs (unsubscribe 7 ?Q) = subs ?Q"
    using unsubscribe_idempotent [of 5 ?S 7 ?Q] b by blast
  have 3: "remove 1 (remove 1 ?S) = remove 1 ?S"
    using unsubscribe_idempotent [of 1 ?S 0 ?Q] by blast
  have 4: "subs (unsubscribe 0 (unsubscribe 0 ?Q)) = subs (unsubscribe 0 ?Q)"
    using unsubscribe_idempotent [of 1 ?S 0 ?Q] by blast
  have 5: "map cb (callbacks (remove 1 ?S)) = [2]"
    by (simp add: remove_def add_def RAFCollection_new_def sort_eval)
  have 6: "map cb (subs (unsubscribe 0 ?Q)) = [2]"
    by (simp add: subs_unsubscribe) (simp add: subs_def onRaf_def Runtime_init_def array_at_def sort_eval)
  from a b 1 2 3 4 5 6 show ?thesis by blast
qed

end
